theory Spec2Isabelle
  imports Main "HOL-Library.Word" "HOL-Library.AList"
begin

section \<open>Diff engine (internal/diff/diff.go)\<close>

text \<open>
  Lines are byte strings; \<open>string\<close> is \<open>char list\<close> and a \<open>char\<close> is a byte.
  Go's \<open>int\<close> fields of \<open>Hunk\<close> and \<open>Line\<close> are \<open>int\<close>; the loop counters of
  \<open>extractHunks\<close> are only decremented under a \<open>> 0\<close> guard, so they are \<open>nat\<close>.
\<close>

datatype LineType = Context | Addition | Deletion

record Line =
  Type :: LineType
  Content :: string
  OldNum :: int
  NewNum :: int

record Hunk =
  OldStart :: int
  OldLines :: int
  NewStart :: int
  NewLines :: int
  Lines :: "Line list"

record Stats =
  Additions :: int
  Deletions :: int
  Changes :: int

record DiffResult =
  Hunks :: "Hunk list"
  DStats :: Stats

datatype diff_error = IndexOutOfRange

definition newline :: char where
  "newline = CHR 0x0A"

text \<open>\<open>bytes.TrimSuffix(s, "\n")\<close>: one trailing newline is removed, if there is one.\<close>

definition trimSuffix_nl :: "string \<Rightarrow> string" where
  "trimSuffix_nl s = (if s \<noteq> [] \<and> last s = newline then butlast s else s)"

text \<open>\<open>bytes.Split(s, "\n")\<close>: the pieces between newlines; never an empty list.\<close>

fun split_nl :: "string \<Rightarrow> string list" where
  "split_nl [] = [[]]"
| "split_nl (c # cs) =
     (if c = newline then [] # split_nl cs
      else (case split_nl cs of [] \<Rightarrow> [[c]] | l # ls \<Rightarrow> (c # l) # ls))"

text \<open>
  \<open>computeLCS\<close>: the matrix is built row by row. Row 0 is all zeros; in row \<open>i\<close> the
  cell \<open>j\<close> reads the cell to its left (the row under construction) and the cells
  \<open>j\<close> and \<open>j - 1\<close> of the previous row.
\<close>

fun lcs_row :: "string \<Rightarrow> string list \<Rightarrow> nat list \<Rightarrow> nat \<Rightarrow> nat \<Rightarrow> nat list" where
  "lcs_row a [] prev j left = []"
| "lcs_row a (b # bs) prev j left =
     (let v = (if a = b then prev ! (j - 1) + 1 else max (prev ! j) left)
      in v # lcs_row a bs prev (j + 1) v)"

fun lcs_rows :: "string list \<Rightarrow> string list \<Rightarrow> nat list \<Rightarrow> nat list list" where
  "lcs_rows [] newLines prev = []"
| "lcs_rows (a # as) newLines prev =
     (let row = 0 # lcs_row a newLines prev 1 0 in row # lcs_rows as newLines row)"

definition computeLCS :: "string list \<Rightarrow> string list \<Rightarrow> nat list list" where
  "computeLCS oldLines newLines =
     (let row0 = replicate (length newLines + 1) 0
      in row0 # lcs_rows oldLines newLines row0)"

text \<open>
  \<open>extractHunks\<close>: the loop state is \<open>(i, j, currentHunk, hunks)\<close>. One iteration
  takes the first matching branch of the \<open>if / else if\<close> chain and then runs the
  closing test at the end of the loop body.
\<close>

definition mkLine :: "LineType \<Rightarrow> string \<Rightarrow> Line" where
  "mkLine t c = \<lparr>Type = t, Content = c, OldNum = 0, NewNum = 0\<rparr>"

definition newHunk :: "nat \<Rightarrow> nat \<Rightarrow> Hunk" where
  "newHunk i j = \<lparr>OldStart = int i, OldLines = 0, NewStart = int j, NewLines = 0, Lines = []\<rparr>"

type_synonym extract_state = "nat \<times> nat \<times> Hunk option \<times> Hunk list"

definition extract_branch ::
  "string list \<Rightarrow> string list \<Rightarrow> nat list list \<Rightarrow> nat \<Rightarrow> nat \<Rightarrow> Hunk option
     \<Rightarrow> nat \<times> nat \<times> Hunk option" where
  "extract_branch oldLines newLines lcs i j cur =
     (if i > 0 \<and> j > 0 \<and> oldLines ! (i - 1) = newLines ! (j - 1) then
        (i - 1, j - 1,
         (case cur of None \<Rightarrow> None
          | Some h \<Rightarrow> Some (h\<lparr>Lines := mkLine Context (oldLines ! (i - 1)) # Lines h\<rparr>)))
      else if j > 0 \<and> (i = 0 \<or> lcs ! i ! (j - 1) \<ge> lcs ! (i - 1) ! j) then
        (let h = (case cur of None \<Rightarrow> newHunk i j | Some h \<Rightarrow> h)
         in (i, j - 1,
             Some (h\<lparr>Lines := mkLine Addition (newLines ! (j - 1)) # Lines h,
                     NewLines := NewLines h + 1\<rparr>)))
      else if i > 0 \<and> (j = 0 \<or> lcs ! i ! (j - 1) < lcs ! (i - 1) ! j) then
        (let h = (case cur of None \<Rightarrow> newHunk i j | Some h \<Rightarrow> h)
         in (i - 1, j,
             Some (h\<lparr>Lines := mkLine Deletion (oldLines ! (i - 1)) # Lines h,
                     OldLines := OldLines h + 1\<rparr>)))
      else (i, j, cur))"

definition extract_step ::
  "string list \<Rightarrow> string list \<Rightarrow> nat list list \<Rightarrow> extract_state \<Rightarrow> extract_state" where
  "extract_step oldLines newLines lcs st =
     (case st of (i, j, cur, hunks) \<Rightarrow>
        (case extract_branch oldLines newLines lcs i j cur of (i', j', cur') \<Rightarrow>
           (case cur' of
              None \<Rightarrow> (i', j', None, hunks)
            | Some h \<Rightarrow>
                if length (Lines h) > 0 then (i', j', None, h # hunks)
                else (i', j', Some h, hunks))))"

lemma extract_branch_decreases:
  "i > 0 \<or> j > 0 \<Longrightarrow> extract_branch oldLines newLines lcs i j cur = (i', j', cur')
     \<Longrightarrow> i' + j' < i + j"
  by (auto simp: extract_branch_def Let_def split: if_splits)

lemma extract_step_decreases:
  "i > 0 \<or> j > 0 \<Longrightarrow> extract_step oldLines newLines lcs (i, j, cur, hunks) = (i', j', cur', hunks')
     \<Longrightarrow> i' + j' < i + j"
proof -
  assume pos: "i > 0 \<or> j > 0"
  assume st: "extract_step oldLines newLines lcs (i, j, cur, hunks) = (i', j', cur', hunks')"
  obtain a b c where br: "extract_branch oldLines newLines lcs i j cur = (a, b, c)"
    by (metis prod_cases3)
  from pos br have "a + b < i + j"
    by (rule extract_branch_decreases)
  moreover from st br have "i' = a \<and> j' = b"
    by (auto simp: extract_step_def split: option.splits if_splits)
  ultimately show ?thesis by simp
qed

function extract_loop ::
  "string list \<Rightarrow> string list \<Rightarrow> nat list list \<Rightarrow> extract_state \<Rightarrow> Hunk list" where
  "extract_loop oldLines newLines lcs (i, j, cur, hunks) =
     (if i > 0 \<or> j > 0
      then extract_loop oldLines newLines lcs (extract_step oldLines newLines lcs (i, j, cur, hunks))
      else hunks)"
  by pat_completeness auto
termination
proof (relation "measure (\<lambda>(oldLines, newLines, lcs, i, j, cur, hunks). i + j)", goal_cases)
  case 1
  show ?case by simp
next
  case (2 oldLines newLines lcs i j cur hunks)
  obtain i' j' cur' hunks' where
    st: "extract_step oldLines newLines lcs (i, j, cur, hunks) = (i', j', cur', hunks')"
    by (metis prod_cases4)
  from 2 st have "i' + j' < i + j"
    by (rule extract_step_decreases)
  with st show ?case by simp
qed

definition extractHunks :: "string list \<Rightarrow> string list \<Rightarrow> nat list list \<Rightarrow> Hunk list" where
  "extractHunks oldLines newLines lcs =
     extract_loop oldLines newLines lcs (length oldLines, length newLines, None, [])"

declare extract_loop.simps [simp del]

text \<open>
  \<open>addContextLines\<close>. Reading \<open>oldLines[j]\<close> outside the slice panics in Go; the
  model returns \<open>IndexOutOfRange\<close> there. The lines before a hunk are prepended one
  at a time, the lines after it appended, and only a hunk that is not the last one
  gets lines after it.
\<close>

definition line_at :: "string list \<Rightarrow> int \<Rightarrow> diff_error + string" where
  "line_at xs j = (if 0 \<le> j \<and> j < int (length xs) then Inr (xs ! nat j) else Inl IndexOutOfRange)"

fun prepend_context :: "string list \<Rightarrow> int list \<Rightarrow> Line list \<Rightarrow> diff_error + Line list" where
  "prepend_context oldLines [] ls = Inr ls"
| "prepend_context oldLines (j # js) ls =
     (case line_at oldLines j of
        Inl e \<Rightarrow> Inl e
      | Inr c \<Rightarrow> prepend_context oldLines js (mkLine Context c # ls))"

fun append_context :: "string list \<Rightarrow> int list \<Rightarrow> Line list \<Rightarrow> diff_error + Line list" where
  "append_context oldLines [] ls = Inr ls"
| "append_context oldLines (j # js) ls =
     (case line_at oldLines j of
        Inl e \<Rightarrow> Inl e
      | Inr c \<Rightarrow> append_context oldLines js (ls @ [mkLine Context c]))"

definition context_hunk :: "int \<Rightarrow> string list \<Rightarrow> bool \<Rightarrow> Hunk \<Rightarrow> diff_error + Hunk" where
  "context_hunk contextLines oldLines notLast hunk =
     (let contextStart = max 0 (OldStart hunk - contextLines) in
      case prepend_context oldLines [contextStart .. OldStart hunk - 1] (Lines hunk) of
        Inl e \<Rightarrow> Inl e
      | Inr ls \<Rightarrow>
          if notLast then
            (let contextEnd = min (int (length oldLines))
                                  (OldStart hunk + OldLines hunk + contextLines) in
             case append_context oldLines [OldStart hunk + OldLines hunk .. contextEnd - 1] ls of
               Inl e \<Rightarrow> Inl e
             | Inr ls' \<Rightarrow> Inr (hunk\<lparr>Lines := ls'\<rparr>))
          else Inr (hunk\<lparr>Lines := ls\<rparr>))"

fun context_loop ::
  "int \<Rightarrow> string list \<Rightarrow> nat \<Rightarrow> nat \<Rightarrow> Hunk list \<Rightarrow> Hunk list \<Rightarrow> diff_error + Hunk list" where
  "context_loop contextLines oldLines n i [] result = Inr result"
| "context_loop contextLines oldLines n i (hunk # rest) result =
     (case context_hunk contextLines oldLines (int i < int n - 1) hunk of
        Inl e \<Rightarrow> Inl e
      | Inr h \<Rightarrow> context_loop contextLines oldLines n (i + 1) rest (result @ [h]))"

definition addContextLines :: "int \<Rightarrow> Hunk list \<Rightarrow> string list \<Rightarrow> diff_error + Hunk list" where
  "addContextLines contextLines hunks oldLines =
     (if contextLines = 0 then Inr hunks
      else context_loop contextLines oldLines (length hunks) 0 hunks [])"

text \<open>\<open>Diff\<close>: split, LCS matrix, hunks, context, then the counts over all hunk lines.\<close>

definition count_type :: "LineType \<Rightarrow> Hunk list \<Rightarrow> int" where
  "count_type t hunks = int (length (filter (\<lambda>l. Type l = t) (concat (map Lines hunks))))"

definition Diff :: "int \<Rightarrow> string \<Rightarrow> string \<Rightarrow> diff_error + DiffResult" where
  "Diff contextLines oldContent newContent =
     (let oldLines = split_nl (trimSuffix_nl oldContent);
          newLines = split_nl (trimSuffix_nl newContent);
          lcs = computeLCS oldLines newLines;
          hunks = extractHunks oldLines newLines lcs
      in case addContextLines contextLines hunks oldLines of
           Inl e \<Rightarrow> Inl e
         | Inr hs \<Rightarrow>
             Inr \<lparr>Hunks = hs,
                  DStats = \<lparr>Additions = count_type Addition hs,
                            Deletions = count_type Deletion hs,
                            Changes = count_type Addition hs + count_type Deletion hs\<rparr>\<rparr>)"

section \<open>Content store (internal/safe/safe.go)\<close>

text \<open>
  The store, the workspace and the tracker share one key-value database and one file
  system, so the model has one state for all of them.

  \<^item> Byte slices are \<open>string\<close>s. A file has its bytes, permission bits and modification
    time; the file system maps a path to a file.
  \<^item> The database holds JSON documents; the model keeps the decoded value and its kind.
    \<open>NilVal\<close> is the empty value stored under the \<open>tracked:\<close> keys. Decoding a document
    of another kind fails with \<open>ErrUnmarshal\<close>.
  \<^item> \<open>crypto/sha256\<close> is not part of the repository: \<open>Sum256\<close> is the parameter \<open>sha\<close>,
    a function from byte strings to 256-bit digests. \<open>encoding/hex\<close> is modelled.
  \<^item> The LRU cache of \<open>hashicorp/golang-lru\<close> is a list of entries, most recently used
    first, with a capacity; \<open>lru.New\<close> refuses a capacity below 1.
  \<^item> \<open>time.Now()\<close> reads the field \<open>now\<close>, which the environment may change between calls.
  \<^item> I/O faults: \<open>os.WriteFile\<close> fails at the paths in \<open>writeFails\<close>. Other I/O errors
    (directory creation, database transactions) are not injected.
\<close>

type_synonym bytes = string

record osfile =
  fdata :: bytes
  fmode :: nat
  fmodTime :: nat

record ContentMeta =
  Hash :: string
  Size :: int
  RefCount :: "32 word"
  Compressed :: bool
  CreatedAt :: nat
  AccessedAt :: nat

record DiffHunk =
  dhOldStart :: int
  dhOldLines :: int
  dhNewStart :: int
  dhNewLines :: int
  dhLines :: "string list"

text \<open>\<open>shared.Change\<close>; the fields \<open>Type\<close>, \<open>Size\<close>, \<open>Diff\<close> and \<open>Content\<close> carry a prefix here.\<close>

record Change =
  Path :: string
  ChangeType :: string
  OldPath :: string
  OldHash :: string
  NewHash :: string
  Mode :: nat
  ChangeSize :: int
  ModTime :: nat
  ChangeDiff :: string
  DiffHunks :: "DiffHunk list"
  Gated :: bool
  ChangeContent :: string

record FileState =
  FHash :: string
  FModTime :: nat
  FSize :: int

datatype dbval = MetaVal ContentMeta | ChangeVal Change | FileStateVal FileState | NilVal

datatype safe_error =
    ErrInvalidHash
  | ErrContentNotFound
  | ErrHashMismatch
  | ErrUnmarshal
  | ErrWriteFile
  | ErrNotExist
  | PanicNilDecompress
  | Wrap string safe_error

record world =
  fs :: "string \<rightharpoonup> osfile"
  writeFails :: "string set"
  db :: "(string \<times> dbval) list"
  cache :: "(string \<times> bytes) list"
  cacheSize :: nat
  safeRoot :: string
  now :: nat
  Root :: string
  GatedChanges :: "(string \<times> Change) list"
  Tracked :: "(string \<times> bool) list"

subsection \<open>encoding/hex and path/filepath\<close>

definition hextable :: string where
  "hextable = ''0123456789abcdef''"

definition digest_bytes :: "256 word \<Rightarrow> 8 word list" where
  "digest_bytes w = map (\<lambda>k. ucast (drop_bit (8 * (31 - k)) w)) [0..<32]"

definition hex_EncodeToString :: "8 word list \<Rightarrow> string" where
  "hex_EncodeToString bs =
     concat (map (\<lambda>b. [hextable ! unat (drop_bit 4 b), hextable ! unat (take_bit 4 b)]) bs)"

definition fromHexChar :: "char \<Rightarrow> nat option" where
  "fromHexChar c =
     (let n = (of_char c :: nat) in
      if 48 \<le> n \<and> n \<le> 57 then Some (n - 48)
      else if 97 \<le> n \<and> n \<le> 102 then Some (n - 97 + 10)
      else if 65 \<le> n \<and> n \<le> 70 then Some (n - 65 + 10)
      else None)"

fun hex_DecodeString :: "string \<Rightarrow> nat list option" where
  "hex_DecodeString [] = Some []"
| "hex_DecodeString [p] = None"
| "hex_DecodeString (p # q # rest) =
     (case fromHexChar p of
        None \<Rightarrow> None
      | Some a \<Rightarrow>
          (case fromHexChar q of
             None \<Rightarrow> None
           | Some b \<Rightarrow>
               (case hex_DecodeString rest of
                  None \<Rightarrow> None
                | Some bs \<Rightarrow> Some ((a * 16 + b) # bs))))"

text \<open>
  \<open>filepath.Join\<close>: the non-empty elements, separated by a slash. The final
  \<open>filepath.Clean\<close> is the identity on the paths of this model, whose elements hold
  no slash, \<open>.\<close> or \<open>..\<close>.
\<close>

fun join_parts :: "string list \<Rightarrow> string" where
  "join_parts [] = []"
| "join_parts [p] = p"
| "join_parts (p # ps) = p @ CHR ''/'' # join_parts ps"

definition filepath_Join :: "string list \<Rightarrow> string" where
  "filepath_Join elems = join_parts (filter (\<lambda>e. e \<noteq> []) elems)"

subsection \<open>The LRU cache\<close>

definition cache_Contains :: "string \<Rightarrow> (string \<times> bytes) list \<Rightarrow> bool" where
  "cache_Contains k c = (map_of c k \<noteq> None)"

definition cache_Get :: "string \<Rightarrow> (string \<times> bytes) list \<Rightarrow> bytes option \<times> (string \<times> bytes) list" where
  "cache_Get k c =
     (case map_of c k of
        None \<Rightarrow> (None, c)
      | Some v \<Rightarrow> (Some v, (k, v) # AList.delete k c))"

definition cache_Add :: "nat \<Rightarrow> string \<Rightarrow> bytes \<Rightarrow> (string \<times> bytes) list \<Rightarrow> (string \<times> bytes) list" where
  "cache_Add cap k v c =
     (if map_of c k \<noteq> None then (k, v) # AList.delete k c
      else if length c + 1 > cap then (k, v) # butlast c
      else (k, v) # c)"

definition cache_Remove :: "string \<Rightarrow> (string \<times> bytes) list \<Rightarrow> (string \<times> bytes) list" where
  "cache_Remove k c = AList.delete k c"

subsection \<open>The operations of Safe\<close>

definition hashContent :: "(bytes \<Rightarrow> 256 word) \<Rightarrow> bytes \<Rightarrow> string" where
  "hashContent sha content = hex_EncodeToString (digest_bytes (sha content))"

definition contentPath :: "world \<Rightarrow> string \<Rightarrow> string" where
  "contentPath s hash = filepath_Join [safeRoot s, take 2 hash, drop 2 hash]"

definition isValidHash :: "string \<Rightarrow> bool" where
  "isValidHash hash =
     (if length hash \<noteq> 64 then False else hex_DecodeString hash \<noteq> None)"

definition metaKey :: "string \<Rightarrow> string" where
  "metaKey hash = ''content:'' @ hash"

definition storeMeta :: "ContentMeta \<Rightarrow> world \<Rightarrow> world" where
  "storeMeta meta s = s\<lparr>db := AList.update (metaKey (Hash meta)) (MetaVal meta) (db s)\<rparr>"

definition getMeta :: "string \<Rightarrow> world \<Rightarrow> safe_error + ContentMeta" where
  "getMeta hash s =
     (case map_of (db s) (metaKey hash) of
        None \<Rightarrow> Inl ErrContentNotFound
      | Some (MetaVal meta) \<Rightarrow> Inr meta
      | Some _ \<Rightarrow> Inl ErrUnmarshal)"

definition deleteMeta :: "string \<Rightarrow> world \<Rightarrow> world" where
  "deleteMeta hash s = s\<lparr>db := AList.delete (metaKey hash) (db s)\<rparr>"

definition incrementRefCount :: "string \<Rightarrow> world \<Rightarrow> safe_error option \<times> world" where
  "incrementRefCount hash s =
     (case getMeta hash s of
        Inl e \<Rightarrow> (Some e, s)
      | Inr meta \<Rightarrow> (None, storeMeta (meta\<lparr>RefCount := RefCount meta + 1\<rparr>) s))"

definition Exists :: "string \<Rightarrow> world \<Rightarrow> safe_error + bool" where
  "Exists hash s =
     (if \<not> isValidHash hash then Inl ErrInvalidHash
      else if cache_Contains hash (cache s) then Inr True
      else (case getMeta hash s of
              Inl e \<Rightarrow> if e = ErrContentNotFound then Inr False else Inl e
            | Inr meta \<Rightarrow> Inr True))"

definition os_WriteFile :: "string \<Rightarrow> bytes \<Rightarrow> world \<Rightarrow> world" where
  "os_WriteFile path data s =
     s\<lparr>fs := (fs s)(path \<mapsto>
          \<lparr>fdata = data,
           fmode = (case fs s path of None \<Rightarrow> 420 | Some f \<Rightarrow> fmode f),
           fmodTime = now s\<rparr>)\<rparr>"

definition Store :: "(bytes \<Rightarrow> 256 word) \<Rightarrow> bytes \<Rightarrow> world \<Rightarrow> (safe_error + string) \<times> world" where
  "Store sha content s =
     (let hash = hashContent sha content in
      case Exists hash s of
        Inl e \<Rightarrow> (Inl (Wrap ''checking existence'' e), s)
      | Inr True \<Rightarrow>
          (case incrementRefCount hash s of
             (Some e, s') \<Rightarrow> (Inl (Wrap ''incrementing ref count'' e), s')
           | (None, s') \<Rightarrow> (Inr hash, s'))
      | Inr False \<Rightarrow>
          if contentPath s hash \<in> writeFails s
          then (Inl (Wrap ''writing content file'' ErrWriteFile), s)
          else
            (let s1 = os_WriteFile (contentPath s hash) content s;
                 meta = \<lparr>Hash = hash, Size = int (length content), RefCount = 1,
                         Compressed = False, CreatedAt = now s, AccessedAt = now s\<rparr>;
                 s2 = storeMeta meta s1
             in (Inr hash, s2\<lparr>cache := cache_Add (cacheSize s2) hash content (cache s2)\<rparr>)))"

text \<open>
  \<open>Get\<close>. The field \<open>decompress\<close> of \<open>Safe\<close> is never assigned, so calling it for a
  record with \<open>Compressed = true\<close> is a call of a nil function: a panic.
\<close>

definition Get :: "(bytes \<Rightarrow> 256 word) \<Rightarrow> string \<Rightarrow> world \<Rightarrow> (safe_error + bytes) \<times> world" where
  "Get sha hash s =
     (if \<not> isValidHash hash then (Inl ErrInvalidHash, s)
      else
        (case cache_Get hash (cache s) of
           (Some cached, c') \<Rightarrow> (Inr cached, s\<lparr>cache := c'\<rparr>)
         | (None, c') \<Rightarrow>
             (case getMeta hash s of
                Inl e \<Rightarrow> (Inl (Wrap ''getting metadata'' e), s)
              | Inr meta \<Rightarrow>
                  (case fs s (contentPath s hash) of
                     None \<Rightarrow> (Inl ErrContentNotFound, s)
                   | Some f \<Rightarrow>
                       if Compressed meta then (Inl PanicNilDecompress, s)
                       else if hashContent sha (fdata f) \<noteq> hash then (Inl ErrHashMismatch, s)
                       else
                         (let s1 = s\<lparr>cache := cache_Add (cacheSize s) hash (fdata f) (cache s)\<rparr>
                          in (Inr (fdata f), storeMeta (meta\<lparr>AccessedAt := now s\<rparr>) s1))))))"

definition Delete :: "string \<Rightarrow> world \<Rightarrow> safe_error option \<times> world" where
  "Delete hash s =
     (if \<not> isValidHash hash then (Some ErrInvalidHash, s)
      else
        (case getMeta hash s of
           Inl e \<Rightarrow> (Some (Wrap ''getting metadata'' e), s)
         | Inr meta0 \<Rightarrow>
             (let meta = meta0\<lparr>RefCount := RefCount meta0 - 1\<rparr> in
              if RefCount meta = 0 then
                (let s1 = s\<lparr>fs := (fs s)(contentPath s hash := None)\<rparr>;
                     s2 = deleteMeta hash s1
                 in (None, s2\<lparr>cache := cache_Remove hash (cache s2)\<rparr>))
              else (None, storeMeta meta s))))"

definition Verify :: "(bytes \<Rightarrow> 256 word) \<Rightarrow> string \<Rightarrow> world \<Rightarrow> safe_error option \<times> world" where
  "Verify sha hash s =
     (case Get sha hash s of
        (Inl e, s') \<Rightarrow> (Some e, s')
      | (Inr content, s') \<Rightarrow>
          if hashContent sha content \<noteq> hash then (Some ErrHashMismatch, s') else (None, s'))"

text \<open>\<open>StoreBatch\<close>: on the first failing item the hashes stored so far are deleted, in
  the order they were stored, and the results of these deletions are dropped.\<close>

fun rollback :: "string list \<Rightarrow> world \<Rightarrow> world" where
  "rollback [] s = s"
| "rollback (h # hs) s = rollback hs (snd (Delete h s))"

fun storeBatch_loop ::
  "(bytes \<Rightarrow> 256 word) \<Rightarrow> bytes list \<Rightarrow> string list \<Rightarrow> world \<Rightarrow> (safe_error + string list) \<times> world" where
  "storeBatch_loop sha [] hashes s = (Inr hashes, s)"
| "storeBatch_loop sha (content # rest) hashes s =
     (case Store sha content s of
        (Inl e, s') \<Rightarrow> (Inl (Wrap ''storing content'' e), rollback hashes s')
      | (Inr hash, s') \<Rightarrow> storeBatch_loop sha rest (hashes @ [hash]) s')"

definition StoreBatch ::
  "(bytes \<Rightarrow> 256 word) \<Rightarrow> bytes list \<Rightarrow> world \<Rightarrow> (safe_error + string list) \<times> world" where
  "StoreBatch sha contents s = storeBatch_loop sha contents [] s"

section \<open>Workspace and tracker (internal/workspace/local.go, internal/change/auto_tracker.go)\<close>

text \<open>
  \<open>LocalWorkspace\<close> and \<open>LocalTracker\<close> both hold \<open>Root\<close>, the database, the content
  store, \<open>GatedChanges\<close> and \<open>Tracked\<close>; the Go maps are association lists. A path
  exists for \<open>os.Stat\<close> when the file system has a file there (directories are not
  entries of \<open>fs\<close>). Database transactions do not fail in this model, so the
  operations whose only errors are transaction errors always return \<open>None\<close>.
\<close>

definition gatedChangePrefix :: string where
  "gatedChangePrefix = ''gated/''"

definition hasPrefix :: "string \<Rightarrow> string \<Rightarrow> bool" where
  "hasPrefix k p = (take (length p) k = p)"

definition trimPrefix :: "string \<Rightarrow> string \<Rightarrow> string" where
  "trimPrefix k p = (if hasPrefix k p then drop (length p) k else k)"

fun Ungate :: "string list \<Rightarrow> world \<Rightarrow> safe_error option \<times> world" where
  "Ungate [] s = (None, s)"
| "Ungate (path # paths) s =
     Ungate paths
       (s\<lparr>GatedChanges := AList.delete path (GatedChanges s),
          db := AList.delete (gatedChangePrefix @ path) (db s)\<rparr>)"

text \<open>\<open>LoadGatedChanges\<close>: the map is replaced by the records under the prefix
  \<open>gated:\<close>; a record that does not decode stops the loading with an error.\<close>

fun load_loop ::
  "(string \<times> dbval) list \<Rightarrow> (string \<times> Change) list \<Rightarrow> safe_error option \<times> (string \<times> Change) list" where
  "load_loop [] g = (None, g)"
| "load_loop ((key, val) # rest) g =
     (case val of
        ChangeVal change \<Rightarrow> load_loop rest (AList.update (trimPrefix key ''gated:'') change g)
      | _ \<Rightarrow> (Some ErrUnmarshal, g))"

definition LoadGatedChanges :: "world \<Rightarrow> safe_error option \<times> world" where
  "LoadGatedChanges s =
     (case load_loop (filter (\<lambda>kv. hasPrefix (fst kv) ''gated:'') (db s)) [] of
        (e, g) \<Rightarrow> (e, s\<lparr>GatedChanges := g\<rparr>))"

definition saveGatedChanges :: "world \<Rightarrow> safe_error option \<times> world" where
  "saveGatedChanges s =
     (None,
      s\<lparr>db := foldl (\<lambda>d pc. AList.update (''gated:'' @ fst pc) (ChangeVal (snd pc)) d)
                     (db s) (GatedChanges s)\<rparr>)"

definition gateFile :: "(bytes \<Rightarrow> 256 word) \<Rightarrow> string \<Rightarrow> world \<Rightarrow> safe_error option \<times> world" where
  "gateFile sha relPath s =
     (let absPath = filepath_Join [Root s, relPath] in
      case fs s absPath of
        None \<Rightarrow> (Some (Wrap ''reading file'' ErrNotExist), s)
      | Some f \<Rightarrow>
          (let currentHash = hashContent sha (fdata f) in
           case Store sha (fdata f) s of
             (Inl e, s1) \<Rightarrow> (Some (Wrap ''storing content'' e), s1)
           | (Inr h, s1) \<Rightarrow>
               (case fs s1 absPath of
                  None \<Rightarrow> (Some (Wrap ''getting file info'' ErrNotExist), s1)
                | Some info \<Rightarrow>
                    (let changeType =
                           (if map_of (GatedChanges s1) relPath = None then ''add'' else ''modify'')
                     in (None,
                         s1\<lparr>GatedChanges :=
                              AList.update relPath
                                \<lparr>Path = relPath, ChangeType = changeType, OldPath = [],
                                 OldHash = [], NewHash = currentHash, Mode = fmode info,
                                 ChangeSize = int (length (fdata info)), ModTime = fmodTime info,
                                 ChangeDiff = [], DiffHunks = [], Gated = True,
                                 ChangeContent = []\<rparr>
                                (GatedChanges s1)\<rparr>)))))"

text \<open>\<open>LocalTracker.Gate\<close> (auto_tracker.go): the change is always a \<open>modify\<close> and is
  written to the database at once.\<close>

definition LocalTracker_Gate ::
  "(bytes \<Rightarrow> 256 word) \<Rightarrow> string \<Rightarrow> world \<Rightarrow> safe_error option \<times> world" where
  "LocalTracker_Gate sha path s =
     (let absPath = filepath_Join [Root s, path] in
      case fs s absPath of
        None \<Rightarrow> (Some (Wrap ''accessing file'' ErrNotExist), s)
      | Some info \<Rightarrow>
          (let currentHash = hashContent sha (fdata info) in
           case Store sha (fdata info) s of
             (Inl e, s1) \<Rightarrow> (Some (Wrap ''storing content'' e), s1)
           | (Inr h, s1) \<Rightarrow>
               (let change =
                      \<lparr>Path = path, ChangeType = ''modify'', OldPath = [], OldHash = [],
                       NewHash = currentHash, Mode = fmode info,
                       ChangeSize = int (length (fdata info)), ModTime = fmodTime info,
                       ChangeDiff = [], DiffHunks = [], Gated = True, ChangeContent = []\<rparr>
                in (None,
                    s1\<lparr>GatedChanges := AList.update path change (GatedChanges s1),
                       db := AList.update (''gated:'' @ path) (ChangeVal change) (db s1)\<rparr>))))"

text \<open>\<open>CleanupGatedChanges\<close>: \<open>cleanup_check\<close> is the body of the first loop and says
  whether the path is appended to \<open>toRemove\<close>.\<close>

definition cleanup_check :: "world \<Rightarrow> string \<times> Change \<Rightarrow> bool" where
  "cleanup_check s pc =
     (let path = fst pc; changeObj = snd pc;
          absPath = filepath_Join [Root s, path] in
      if fs s absPath \<noteq> None then False
      else
        (let newHash = (if NewHash changeObj = [] then OldHash changeObj else NewHash changeObj) in
         if newHash = [] then False
         else if length newHash < 2 then False
         else
           (let contentDir = take 2 newHash;
                cPath = filepath_Join [Root s, ''.tig'', ''content'', contentDir, newHash]
            in fs s cPath = None)))"

definition CleanupGatedChanges :: "world \<Rightarrow> safe_error option \<times> world" where
  "CleanupGatedChanges s =
     (let toRemove = map fst (filter (cleanup_check s) (GatedChanges s)) in
      (None, s\<lparr>GatedChanges := foldl (\<lambda>g path. AList.delete path g) (GatedChanges s) toRemove\<rparr>))"

text \<open>The file-state helpers of \<open>LocalTracker\<close>, and \<open>Untrack\<close>.\<close>

definition fileStateKey :: "string \<Rightarrow> string" where
  "fileStateKey path = ''file_state:'' @ path"

definition storeFileState :: "string \<Rightarrow> FileState \<Rightarrow> world \<Rightarrow> world" where
  "storeFileState path state s = s\<lparr>db := AList.update (fileStateKey path) (FileStateVal state) (db s)\<rparr>"

definition updateFileState :: "Change \<Rightarrow> world \<Rightarrow> world" where
  "updateFileState change s =
     s\<lparr>db := AList.update (fileStateKey (Path change))
              (FileStateVal \<lparr>FHash = NewHash change, FModTime = ModTime change, FSize = ChangeSize change\<rparr>)
              (db s)\<rparr>"

definition deleteFileState :: "string \<Rightarrow> world \<Rightarrow> world" where
  "deleteFileState path s = s\<lparr>db := AList.delete (fileStateKey path) (db s)\<rparr>"

definition saveTrackedFiles :: "world \<Rightarrow> world" where
  "saveTrackedFiles s =
     (let d1 = filter (\<lambda>kv. \<not> hasPrefix (fst kv) ''tracked:'') (db s)
      in s\<lparr>db := foldl (\<lambda>d pt. AList.update (''tracked:'' @ fst pt) NilVal d) d1 (Tracked s)\<rparr>)"

fun untrack_loop :: "string list \<Rightarrow> world \<Rightarrow> world" where
  "untrack_loop [] s = s"
| "untrack_loop (path # paths) s =
     untrack_loop paths (deleteFileState path (s\<lparr>Tracked := AList.delete path (Tracked s)\<rparr>))"

definition Untrack :: "string list \<Rightarrow> world \<Rightarrow> safe_error option \<times> world" where
  "Untrack paths s = (None, saveTrackedFiles (untrack_loop paths s))"

section \<open>Concrete inputs\<close>

text \<open>
  The closed examples below need a digest function. \<open>demo_sha\<close> stands in for SHA-256
  there: it reads the bytes as a base-256 numeral behind a leading 1, so it is free of
  collisions on inputs of up to 31 bytes. The workspace of the examples is the repository
  root \<open>/repo\<close> with the content store under \<open>/repo/.tig/content\<close>, as \<open>parcel.New\<close> sets
  it up (cache size 1000).
\<close>

definition demo_sha :: "bytes \<Rightarrow> 256 word" where
  "demo_sha b = of_nat (foldl (\<lambda>acc c. 256 * acc + of_char c) 1 b)"

definition empty_world :: world where
  "empty_world =
     \<lparr>fs = Map.empty, writeFails = {}, db = [], cache = [], cacheSize = 1000,
      safeRoot = ''/repo/.tig/content'', now = 0, Root = ''/repo'',
      GatedChanges = [], Tracked = []\<rparr>"

section \<open>Auxiliary notions for the statements\<close>

text \<open>The characters that \<open>fromHexChar\<close> accepts: hexadecimal digits of either case.\<close>

definition isHexDigit :: "char \<Rightarrow> bool" where
  "isHexDigit c = (c \<in> set ''0123456789abcdefABCDEF'')"

text \<open>The database value stored for a hash, and the reference count of its record.\<close>

definition meta_at :: "world \<Rightarrow> string \<Rightarrow> dbval option" where
  "meta_at s h = map_of (db s) (metaKey h)"

definition refCountOf :: "string \<Rightarrow> world \<Rightarrow> 32 word option" where
  "refCountOf h s = (case getMeta h s of Inl e \<Rightarrow> None | Inr meta \<Rightarrow> Some (RefCount meta))"

text \<open>
  Sequences of store operations. \<open>run_ops\<close> applies the operations in order and drops
  their results; \<open>store_n\<close> and \<open>delete_n\<close> repeat one \<open>Store\<close> and one \<open>Delete\<close>.
\<close>

datatype safe_op = OpStore bytes | OpGet string | OpDelete string

fun apply_op :: "(bytes \<Rightarrow> 256 word) \<Rightarrow> safe_op \<Rightarrow> world \<Rightarrow> world" where
  "apply_op sha (OpStore b) s = snd (Store sha b s)"
| "apply_op sha (OpGet h) s = snd (Get sha h s)"
| "apply_op sha (OpDelete h) s = snd (Delete h s)"

fun run_ops :: "(bytes \<Rightarrow> 256 word) \<Rightarrow> safe_op list \<Rightarrow> world \<Rightarrow> world" where
  "run_ops sha [] s = s"
| "run_ops sha (op # ops) s = run_ops sha ops (apply_op sha op s)"

fun is_store :: "safe_op \<Rightarrow> bool" where
  "is_store (OpStore b) = True"
| "is_store (OpGet h) = False"
| "is_store (OpDelete h) = False"

definition count_stores :: "safe_op list \<Rightarrow> nat" where
  "count_stores ops = length (filter is_store ops)"

primrec store_n :: "(bytes \<Rightarrow> 256 word) \<Rightarrow> bytes \<Rightarrow> nat \<Rightarrow> world \<Rightarrow> world" where
  "store_n sha b 0 s = s"
| "store_n sha b (Suc n) s = store_n sha b n (snd (Store sha b s))"

primrec delete_n :: "string \<Rightarrow> nat \<Rightarrow> world \<Rightarrow> world" where
  "delete_n h 0 s = s"
| "delete_n h (Suc n) s = delete_n h n (snd (Delete h s))"

text \<open>Every persisted metadata record has a reference count between 1 and \<open>n\<close>.\<close>

definition refs_ok :: "nat \<Rightarrow> world \<Rightarrow> bool" where
  "refs_ok n s =
     (\<forall>k m. map_of (db s) k = Some (MetaVal m) \<longrightarrow> 1 \<le> unat (RefCount m) \<and> unat (RefCount m) \<le> n)"

text \<open>The record of hash \<open>h\<close> is a metadata record for \<open>h\<close> with reference count \<open>r\<close>.\<close>

definition has_refs :: "string \<Rightarrow> 32 word \<Rightarrow> world \<Rightarrow> bool" where
  "has_refs h r s = (\<exists>m. meta_at s h = Some (MetaVal m) \<and> Hash m = h \<and> RefCount m = r)"

text \<open>
  Well-formedness of the metadata: a record stored for hash \<open>h\<close> names \<open>h\<close> in its
  \<open>Hash\<close> field. \<open>slot_holds sha b s\<close>: whatever the store holds under the hash of
  \<open>b\<close> is \<open>b\<close> itself: an uncompressed record with its blob file holding \<open>b\<close>, and a
  cache entry, if any, holding \<open>b\<close> and backed by a record.
\<close>

definition keys_ok :: "world \<Rightarrow> bool" where
  "keys_ok s = (\<forall>h m. meta_at s h = Some (MetaVal m) \<longrightarrow> Hash m = h)"

definition slot_holds :: "(bytes \<Rightarrow> 256 word) \<Rightarrow> bytes \<Rightarrow> world \<Rightarrow> bool" where
  "slot_holds sha b s =
     ((\<forall>x. meta_at s (hashContent sha b) = Some x \<longrightarrow>
          (\<exists>m f. x = MetaVal m \<and> \<not> Compressed m \<and>
                 fs s (contentPath s (hashContent sha b)) = Some f \<and> fdata f = b)) \<and>
      (\<forall>v. map_of (cache s) (hashContent sha b) = Some v \<longrightarrow>
          v = b \<and> meta_at s (hashContent sha b) \<noteq> None))"

text \<open>The contents that a sequence of operations stores.\<close>

fun stored_contents :: "safe_op list \<Rightarrow> bytes list" where
  "stored_contents [] = []"
| "stored_contents (OpStore c # ops) = c # stored_contents ops"
| "stored_contents (OpGet h # ops) = stored_contents ops"
| "stored_contents (OpDelete h # ops) = stored_contents ops"

text \<open>None of the contents \<open>cs\<close> collides with \<open>b\<close>: one with the hash of \<open>b\<close> is \<open>b\<close>.\<close>

definition no_collision :: "(bytes \<Rightarrow> 256 word) \<Rightarrow> bytes \<Rightarrow> bytes list \<Rightarrow> bool" where
  "no_collision sha b cs = (\<forall>c\<in>set cs. hashContent sha c = hashContent sha b \<longrightarrow> c = b)"

section \<open>Concrete workspaces\<close>

text \<open>
  The file \<open>file.txt\<close> with the bytes \<open>hello\<close> in the repository \<open>/repo\<close>, nothing
  stored or gated yet (\<open>file_world\<close>); the same workspace after \<open>Store\<close> of these bytes
  (\<open>stored_world\<close>); and after \<open>Gate(["file.txt"])\<close>, which runs \<open>gateFile\<close> and then
  \<open>saveGatedChanges\<close> (\<open>gated_world\<close>). The lemmas \<open>Store_hello\<close> and
  \<open>gated_world_reached\<close> below show that the operations produce these states.
  \<open>hello_hash\<close> is the hexadecimal digest of \<open>hello\<close> under \<open>demo_sha\<close>.
\<close>

definition hello_file :: osfile where
  "hello_file = \<lparr>fdata = ''hello'', fmode = 420, fmodTime = 1\<rparr>"

definition file_world :: world where
  "file_world = empty_world\<lparr>fs := [''/repo/file.txt'' \<mapsto> hello_file]\<rparr>"

definition hello_hash :: string where
  "hello_hash = hashContent demo_sha ''hello''"

definition hello_blob_path :: string where
  "hello_blob_path = ''/repo/.tig/content/'' @ take 2 hello_hash @ ''/'' @ drop 2 hello_hash"

definition hello_meta :: ContentMeta where
  "hello_meta =
     \<lparr>Hash = hello_hash, Size = 5, RefCount = 1, Compressed = False, CreatedAt = 0, AccessedAt = 0\<rparr>"

definition hello_change :: Change where
  "hello_change =
     \<lparr>Path = ''file.txt'', ChangeType = ''add'', OldPath = [], OldHash = [],
      NewHash = hello_hash, Mode = 420, ChangeSize = 5, ModTime = 1, ChangeDiff = [],
      DiffHunks = [], Gated = True, ChangeContent = []\<rparr>"

definition stored_world :: world where
  "stored_world =
     \<lparr>fs = [''/repo/file.txt'' \<mapsto> hello_file,
             hello_blob_path \<mapsto> \<lparr>fdata = ''hello'', fmode = 420, fmodTime = 0\<rparr>],
      writeFails = {},
      db = [(metaKey hello_hash, MetaVal hello_meta)],
      cache = [(hello_hash, ''hello'')], cacheSize = 1000,
      safeRoot = ''/repo/.tig/content'', now = 0, Root = ''/repo'',
      GatedChanges = [], Tracked = []\<rparr>"

definition gated_world :: world where
  "gated_world =
     stored_world
       \<lparr>db := [(metaKey hello_hash, MetaVal hello_meta),
               (''gated:file.txt'', ChangeVal hello_change)],
        GatedChanges := [(''file.txt'', hello_change)]\<rparr>"

text \<open>The gated workspace after the working file \<open>file.txt\<close> has been removed from disk.\<close>

definition blob_only_world :: world where
  "blob_only_world = gated_world\<lparr>fs := (fs gated_world)(''/repo/file.txt'' := None)\<rparr>"

text \<open>The stored blob overwritten on disk with other bytes; database and cache untouched.\<close>

definition corrupted_world :: world where
  "corrupted_world =
     stored_world\<lparr>fs := (fs stored_world)(hello_blob_path \<mapsto>
                      \<lparr>fdata = ''hellp'', fmode = 420, fmodTime = 2\<rparr>)\<rparr>"

text \<open>The workspace with a recorded \<open>FileState\<close> for the tracked \<open>file.txt\<close>.\<close>

definition tracked_world :: world where
  "tracked_world =
     file_world\<lparr>db := [(fileStateKey ''file.txt'',
                        FileStateVal \<lparr>FHash = hello_hash, FModTime = 1, FSize = 5\<rparr>)],
                Tracked := [(''file.txt'', True)]\<rparr>"

section \<open>The store under damage to its files\<close>

text \<open>
  An event in the life of a store is a call of \<open>Store\<close>, \<open>Get\<close> or \<open>Delete\<close>, or damage
  done to the disk from outside: the file system is replaced by an arbitrary other one,
  while the database and the cache are left alone.
\<close>

datatype event = Call safe_op | Damage "string \<Rightarrow> osfile option"

fun apply_event :: "(bytes \<Rightarrow> 256 word) \<Rightarrow> event \<Rightarrow> world \<Rightarrow> world" where
  "apply_event sha (Call op) s = apply_op sha op s"
| "apply_event sha (Damage d) s = s\<lparr>fs := d\<rparr>"

fun run_events :: "(bytes \<Rightarrow> 256 word) \<Rightarrow> event list \<Rightarrow> world \<Rightarrow> world" where
  "run_events sha [] s = s"
| "run_events sha (e # es) s = run_events sha es (apply_event sha e s)"

text \<open>
  Two invariants of the store. \<open>cache_ok\<close>: the bytes cached under a key hash to that
  key. \<open>plain_metas\<close>: what the database holds for a hash is a metadata record that is
  not marked compressed.
\<close>

definition cache_ok :: "(bytes \<Rightarrow> 256 word) \<Rightarrow> world \<Rightarrow> bool" where
  "cache_ok sha s = (\<forall>h v. map_of (cache s) h = Some v \<longrightarrow> hashContent sha v = h)"

definition plain_metas :: "world \<Rightarrow> bool" where
  "plain_metas s = (\<forall>h x. meta_at s h = Some x \<longrightarrow> (\<exists>m. x = MetaVal m \<and> \<not> Compressed m))"

text \<open>
  The workspace \<open>file_world\<close> with a cache of one entry, and the state it reaches when
  the bytes \<open>hello\<close> are stored, their blob is overwritten on disk as in
  \<open>corrupted_world\<close>, and the bytes \<open>hellp\<close> are stored, which evicts \<open>hello\<close> from the
  cache.
\<close>

definition small_cache_world :: world where
  "small_cache_world = file_world\<lparr>cacheSize := 1\<rparr>"

definition evicted_corrupted_world :: world where
  "evicted_corrupted_world =
     run_events demo_sha
       [Call (OpStore ''hello''), Damage (fs corrupted_world), Call (OpStore ''hellp'')]
       small_cache_world"

section \<open>Notions for the rollback of a batch\<close>

text \<open>
  \<open>orphan_free\<close>: no blob file lies at the path of a hash that has no record.
  \<open>batch_ready n s\<close>: the store can take \<open>n\<close> more references to any hash without a
  reference count overflowing; its records are well-formed with counts of at least 1, and
  it has no orphaned blob.
\<close>

definition orphan_free :: "world \<Rightarrow> bool" where
  "orphan_free s = (\<forall>h. isValidHash h \<longrightarrow> meta_at s h = None \<longrightarrow> fs s (contentPath s h) = None)"

definition batch_ready :: "nat \<Rightarrow> world \<Rightarrow> bool" where
  "batch_ready n s =
     (n < 2 ^ 32 \<and> keys_ok s \<and> orphan_free s \<and>
      (\<forall>h m. meta_at s h = Some (MetaVal m) \<longrightarrow>
          1 \<le> unat (RefCount m) \<and> unat (RefCount m) + n < 2 ^ 32))"

text \<open>
  \<open>extra s t c\<close>: state \<open>t\<close> is state \<open>s\<close> with \<open>c h\<close> additional references to each
  hash \<open>h\<close>, and nothing else changed in the database and the file system. For one hash,
  either its record of \<open>s\<close> has its count raised by \<open>c h\<close>, or \<open>s\<close> has no record and \<open>t\<close>
  has one with count \<open>c h > 0\<close>, or nothing changed.
\<close>

definition slot_extra :: "world \<Rightarrow> world \<Rightarrow> string \<Rightarrow> nat \<Rightarrow> bool" where
  "slot_extra s t h n =
     ((\<exists>m. meta_at s h = Some (MetaVal m) \<and>
           meta_at t h = Some (MetaVal (m\<lparr>RefCount := RefCount m + of_nat n\<rparr>)) \<and>
           fs t (contentPath s h) = fs s (contentPath s h)) \<or>
      (meta_at s h = None \<and> 0 < n \<and>
         (\<exists>m'. meta_at t h = Some (MetaVal m') \<and> Hash m' = h \<and> RefCount m' = of_nat n)) \<or>
      (n = 0 \<and> meta_at t h = meta_at s h \<and> fs t (contentPath s h) = fs s (contentPath s h)))"

definition extra :: "world \<Rightarrow> world \<Rightarrow> (string \<Rightarrow> nat) \<Rightarrow> bool" where
  "extra s t c =
     (safeRoot t = safeRoot s \<and>
      (\<forall>k. (\<forall>h. k \<noteq> metaKey h) \<longrightarrow> map_of (db t) k = map_of (db s) k) \<and>
      (\<forall>p. (\<forall>h. isValidHash h \<longrightarrow> p \<noteq> contentPath s h) \<longrightarrow> fs t p = fs s p) \<and>
      (\<forall>h. \<not> isValidHash h \<longrightarrow> meta_at t h = meta_at s h) \<and>
      (\<forall>h. isValidHash h \<longrightarrow> slot_extra s t h (c h)))"

text \<open>An empty store in which the blob of the bytes \<open>hellp\<close> cannot be written.\<close>

definition failing_world :: world where
  "failing_world =
     empty_world\<lparr>writeFails := {contentPath empty_world (hashContent demo_sha ''hellp'')}\<rparr>"

text \<open>
  The same store after \<open>2^32 - 1\<close> calls of \<open>Store\<close> for the bytes \<open>hello\<close>: their
  reference count is the largest value of a \<open>uint32\<close>.
\<close>

definition full_world :: world where
  "full_world = store_n demo_sha ''hello'' (2 ^ 32 - 1) failing_world"

section \<open>Hashes are 64 hexadecimal characters\<close>

lemma length_hex_EncodeToString: "length (hex_EncodeToString bs) = 2 * length bs"
  by (induction bs) (simp_all add: hex_EncodeToString_def)

lemma length_digest_bytes: "length (digest_bytes w) = 32"
  by (simp add: digest_bytes_def)

lemma length_hashContent: "length (hashContent sha b) = 64"
  by (simp add: hashContent_def length_hex_EncodeToString length_digest_bytes)

lemma fromHexChar_hextable: "i < 16 \<Longrightarrow> fromHexChar (hextable ! i) \<noteq> None"
proof -
  assume "i < 16"
  then have "hextable ! i \<in> set hextable"
    by (intro nth_mem) (simp add: hextable_def)
  moreover have "\<forall>c\<in>set hextable. fromHexChar c \<noteq> None"
    by (simp add: hextable_def fromHexChar_def)
  ultimately show ?thesis by blast
qed

lemma nibble_hi: "unat (drop_bit 4 (b :: 8 word)) < 16"
proof -
  have "unat (drop_bit 4 b) = drop_bit 4 (unat b)"
    by (simp only: unat_drop_bit_eq)
  then have "unat (drop_bit 4 b) = unat b div 2 ^ 4"
    by (simp only: drop_bit_eq_div)
  moreover have "unat b < 256" using unsigned_less [of b] by simp
  ultimately show ?thesis by simp
qed

lemma nibble_lo: "unat (take_bit 4 (b :: 8 word)) < 16"
proof -
  have "unat (take_bit 4 b) = take_bit 4 (unat b)"
    by (rule unsigned_take_bit_eq)
  also have "\<dots> < 2 ^ 4"
    by (rule take_bit_nat_less_exp)
  finally show ?thesis by simp
qed

lemma hex_EncodeToString_valid: "c \<in> set (hex_EncodeToString bs) \<Longrightarrow> fromHexChar c \<noteq> None"
proof -
  assume "c \<in> set (hex_EncodeToString bs)"
  then obtain b :: "8 word" where
    "c = hextable ! unat (drop_bit 4 b) \<or> c = hextable ! unat (take_bit 4 b)"
    by (auto simp: hex_EncodeToString_def)
  then show ?thesis
    using fromHexChar_hextable [OF nibble_hi [of b]] fromHexChar_hextable [OF nibble_lo [of b]]
    by auto
qed

lemma hex_DecodeString_iff:
  "hex_DecodeString h \<noteq> None \<longleftrightarrow> even (length h) \<and> (\<forall>c\<in>set h. fromHexChar c \<noteq> None)"
  by (induction h rule: hex_DecodeString.induct) (auto split: option.splits)

lemma isValidHash_iff:
  "isValidHash h \<longleftrightarrow> length h = 64 \<and> (\<forall>c\<in>set h. fromHexChar c \<noteq> None)"
proof -
  have "length h = 64 \<Longrightarrow> even (length h)" by simp
  then show ?thesis
    unfolding isValidHash_def hex_DecodeString_iff by auto
qed

lemma isValidHash_hashContent: "isValidHash (hashContent sha b)"
  unfolding isValidHash_iff
  using hex_EncodeToString_valid [of _ "digest_bytes (sha b)"] length_hashContent [of sha b]
  by (auto simp: hashContent_def)

lemma isHexDigit_fromHexChar: "isHexDigit c \<Longrightarrow> fromHexChar c \<noteq> None"
  unfolding isHexDigit_def by (auto simp: fromHexChar_def)

lemma hex_ranges:
  "48 \<le> (n::nat) \<and> n \<le> 57 \<Longrightarrow>
     n = 48 \<or> n = 49 \<or> n = 50 \<or> n = 51 \<or> n = 52 \<or> n = 53 \<or> n = 54 \<or> n = 55 \<or> n = 56 \<or> n = 57"
  "97 \<le> (n::nat) \<and> n \<le> 102 \<Longrightarrow> n = 97 \<or> n = 98 \<or> n = 99 \<or> n = 100 \<or> n = 101 \<or> n = 102"
  "65 \<le> (n::nat) \<and> n \<le> 70 \<Longrightarrow> n = 65 \<or> n = 66 \<or> n = 67 \<or> n = 68 \<or> n = 69 \<or> n = 70"
  by arith+

lemma isHexDigit_char_of:
  "isHexDigit (char_of (48::nat))" "isHexDigit (char_of (49::nat))" "isHexDigit (char_of (50::nat))"
  "isHexDigit (char_of (51::nat))" "isHexDigit (char_of (52::nat))" "isHexDigit (char_of (53::nat))"
  "isHexDigit (char_of (54::nat))" "isHexDigit (char_of (55::nat))" "isHexDigit (char_of (56::nat))"
  "isHexDigit (char_of (57::nat))"
  "isHexDigit (char_of (97::nat))" "isHexDigit (char_of (98::nat))" "isHexDigit (char_of (99::nat))"
  "isHexDigit (char_of (100::nat))" "isHexDigit (char_of (101::nat))" "isHexDigit (char_of (102::nat))"
  "isHexDigit (char_of (65::nat))" "isHexDigit (char_of (66::nat))" "isHexDigit (char_of (67::nat))"
  "isHexDigit (char_of (68::nat))" "isHexDigit (char_of (69::nat))" "isHexDigit (char_of (70::nat))"
  by (simp_all add: isHexDigit_def char_of_def bit_Suc_0_iff)

lemma fromHexChar_isHexDigit: "fromHexChar c \<noteq> None \<Longrightarrow> isHexDigit c"
proof -
  assume h: "fromHexChar c \<noteq> None"
  define n where "n = (of_char c :: nat)"
  have c: "c = char_of n" by (simp add: n_def)
  from h have "(48 \<le> n \<and> n \<le> 57) \<or> (97 \<le> n \<and> n \<le> 102) \<or> (65 \<le> n \<and> n \<le> 70)"
    unfolding fromHexChar_def Let_def n_def [symmetric]
    by (simp split: if_splits)
  then show "isHexDigit c"
    unfolding c using hex_ranges [of n] isHexDigit_char_of by metis
qed

lemma isValidHash_isHexDigit:
  "isValidHash h \<longleftrightarrow> length h = 64 \<and> list_all isHexDigit h"
  unfolding isValidHash_iff list_all_iff
  using fromHexChar_isHexDigit isHexDigit_fromHexChar by blast

section \<open>Basic facts about the store operations\<close>

lemma metaKey_inj [simp]: "metaKey h = metaKey h' \<longleftrightarrow> h = h'"
  by (simp add: metaKey_def)

lemma map_of_update: "map_of (AList.update k v al) k' = (if k' = k then Some v else map_of al k')"
  by (simp add: update_conv')

lemma map_of_delete: "map_of (AList.delete k al) k' = (if k' = k then None else map_of al k')"
  by (simp add: delete_conv')

lemma getMeta_Inr: "getMeta h s = Inr m \<longleftrightarrow> meta_at s h = Some (MetaVal m)"
  by (auto simp: getMeta_def meta_at_def split: option.splits dbval.splits)

lemma getMeta_NotFound: "getMeta h s = Inl ErrContentNotFound \<longleftrightarrow> meta_at s h = None"
  by (auto simp: getMeta_def meta_at_def split: option.splits dbval.splits)

lemma Exists_meta: "isValidHash h \<Longrightarrow> meta_at s h = Some (MetaVal m) \<Longrightarrow> Exists h s = Inr True"
  by (simp add: Exists_def getMeta_def meta_at_def)

lemma Exists_absent:
  "isValidHash h \<Longrightarrow> meta_at s h = None \<Longrightarrow> map_of (cache s) h = None \<Longrightarrow> Exists h s = Inr False"
  by (simp add: Exists_def getMeta_def meta_at_def cache_Contains_def)

lemma Store_existing:
  "meta_at s (hashContent sha b) = Some (MetaVal m) \<Longrightarrow>
   Store sha b s = (Inr (hashContent sha b), storeMeta (m\<lparr>RefCount := RefCount m + 1\<rparr>) s)"
  by (simp add: Store_def Exists_meta isValidHash_hashContent incrementRefCount_def
      getMeta_Inr [THEN iffD2])

lemma Store_new:
  "meta_at s (hashContent sha b) = None \<Longrightarrow> map_of (cache s) (hashContent sha b) = None \<Longrightarrow>
   contentPath s (hashContent sha b) \<notin> writeFails s \<Longrightarrow>
   Store sha b s =
     (Inr (hashContent sha b),
      (storeMeta \<lparr>Hash = hashContent sha b, Size = int (length b), RefCount = 1,
                 Compressed = False, CreatedAt = now s, AccessedAt = now s\<rparr>
         (os_WriteFile (contentPath s (hashContent sha b)) b s))
       \<lparr>cache := cache_Add (cacheSize s) (hashContent sha b) b (cache s)\<rparr>)"
  by (simp add: Store_def Exists_absent isValidHash_hashContent Let_def storeMeta_def os_WriteFile_def)

lemma Store_fail_unchanged: "Store sha b s = (Inl e, s') \<Longrightarrow> s' = s"
  by (auto simp: Store_def Let_def incrementRefCount_def
      split: sum.splits bool.splits if_splits prod.splits option.splits)

lemma Store_Inr_hash: "Store sha b s = (Inr h, s') \<Longrightarrow> h = hashContent sha b"
  by (auto simp: Store_def Let_def incrementRefCount_def
      split: sum.splits bool.splits if_splits prod.splits option.splits)


lemma Get_cache_hit:
  "isValidHash h \<Longrightarrow> map_of (cache s) h = Some v \<Longrightarrow> fst (Get sha h s) = Inr v"
  by (simp add: Get_def cache_Get_def)

lemma Get_cache_miss_mismatch:
  "isValidHash h \<Longrightarrow> map_of (cache s) h = None \<Longrightarrow> meta_at s h = Some (MetaVal m) \<Longrightarrow>
   \<not> Compressed m \<Longrightarrow> fs s (contentPath s h) = Some f \<Longrightarrow> hashContent sha (fdata f) \<noteq> h \<Longrightarrow>
   Get sha h s = (Inl ErrHashMismatch, s)"
  by (simp add: Get_def cache_Get_def getMeta_def meta_at_def)

lemma Verify_of_Get:
  "fst (Verify sha h s) =
     (case fst (Get sha h s) of
        Inl e \<Rightarrow> Some e
      | Inr c \<Rightarrow> if hashContent sha c \<noteq> h then Some ErrHashMismatch else None)"
  by (simp add: Verify_def split: prod.splits sum.splits)

section \<open>The concrete workspaces are reached by the operations\<close>


lemma file_world_fields:
  "fs file_world = [''/repo/file.txt'' \<mapsto> hello_file]" "writeFails file_world = {}"
  "db file_world = []" "cache file_world = []" "cacheSize file_world = 1000"
  "safeRoot file_world = ''/repo/.tig/content''" "now file_world = 0" "Root file_world = ''/repo''"
  "GatedChanges file_world = []" "Tracked file_world = []"
  by (simp_all add: file_world_def empty_world_def)

lemma hello_hash_valid: "isValidHash hello_hash" "length hello_hash = 64"
  by (simp_all add: hello_hash_def isValidHash_hashContent length_hashContent)

lemma take2_nonempty: "length h = 64 \<Longrightarrow> take 2 h \<noteq> [] \<and> drop 2 h \<noteq> []"
  by auto

lemma contentPath_expand:
  "length h = 64 \<Longrightarrow> safeRoot s \<noteq> [] \<Longrightarrow>
   contentPath s h = safeRoot s @ ''/'' @ take 2 h @ ''/'' @ drop 2 h"
  using take2_nonempty [of h] by (simp add: contentPath_def filepath_Join_def)

lemma hello_path_eq: "contentPath file_world hello_hash = hello_blob_path"
  by (simp add: contentPath_expand hello_hash_valid file_world_fields hello_blob_path_def)

lemma hello_blob_path_neq [simp]: "hello_blob_path \<noteq> ''/repo/file.txt''" "''/repo/file.txt'' \<noteq> hello_blob_path"
  by (simp_all add: hello_blob_path_def)

lemma Store_hello: "Store demo_sha ''hello'' file_world = (Inr hello_hash, stored_world)"
proof -
  have "Store demo_sha ''hello'' file_world =
     (Inr hello_hash,
      (storeMeta \<lparr>Hash = hello_hash, Size = int (length ''hello''), RefCount = 1,
                 Compressed = False, CreatedAt = now file_world, AccessedAt = now file_world\<rparr>
         (os_WriteFile (contentPath file_world hello_hash) ''hello'' file_world))
       \<lparr>cache := cache_Add (cacheSize file_world) hello_hash ''hello'' (cache file_world)\<rparr>)"
    unfolding hello_hash_def
    by (rule Store_new) (simp_all add: meta_at_def file_world_fields)
  also have "\<dots> = (Inr hello_hash, stored_world)"
    unfolding hello_path_eq
    by (simp add: storeMeta_def os_WriteFile_def cache_Add_def file_world_def empty_world_def
        stored_world_def hello_meta_def)
  finally show ?thesis .
qed


lemma stored_world_fields:
  "fs stored_world = [''/repo/file.txt'' \<mapsto> hello_file,
        hello_blob_path \<mapsto> \<lparr>fdata = ''hello'', fmode = 420, fmodTime = 0\<rparr>]"
  "db stored_world = [(metaKey hello_hash, MetaVal hello_meta)]"
  "cache stored_world = [(hello_hash, ''hello'')]"
  "safeRoot stored_world = ''/repo/.tig/content''" "Root stored_world = ''/repo''"
  "GatedChanges stored_world = []" "cacheSize stored_world = 1000" "now stored_world = 0"
  by (simp_all add: stored_world_def)

lemma gateFile_hello:
  "gateFile demo_sha ''file.txt'' file_world
     = (None, stored_world\<lparr>GatedChanges := [(''file.txt'', hello_change)]\<rparr>)"
  by (simp add: gateFile_def filepath_Join_def file_world_fields Store_hello
      hello_hash_def [symmetric] hello_file_def stored_world_fields hello_change_def)

lemma gated_world_reached:
  "snd (saveGatedChanges (snd (gateFile demo_sha ''file.txt'' file_world))) = gated_world"
  by (simp add: gateFile_hello saveGatedChanges_def gated_world_def stored_world_fields metaKey_def)

lemma gated_world_fields:
  "db gated_world = [(metaKey hello_hash, MetaVal hello_meta), (''gated:file.txt'', ChangeVal hello_change)]"
  "GatedChanges gated_world = [(''file.txt'', hello_change)]"
  "fs gated_world = fs stored_world" "Root gated_world = ''/repo''"
  "safeRoot gated_world = ''/repo/.tig/content''"
  by (simp_all add: gated_world_def stored_world_fields)

lemma cleanup_path_neq:
  "''/repo/.tig/content/'' @ take 2 hello_hash @ ''/'' @ hello_hash \<noteq> hello_blob_path"
proof
  assume "''/repo/.tig/content/'' @ take 2 hello_hash @ ''/'' @ hello_hash = hello_blob_path"
  then have "length (''/repo/.tig/content/'' @ take 2 hello_hash @ ''/'' @ hello_hash)
      = length hello_blob_path" by simp
  then show False
    by (simp add: hello_blob_path_def hello_hash_valid)
qed

lemma corrupted_fields:
  "fs corrupted_world hello_blob_path = Some \<lparr>fdata = ''hellp'', fmode = 420, fmodTime = 2\<rparr>"
  "db corrupted_world = db stored_world" "cache corrupted_world = [(hello_hash, ''hello'')]"
  "safeRoot corrupted_world = ''/repo/.tig/content''"
  by (simp_all add: corrupted_world_def stored_world_fields)

lemma corrupted_path: "contentPath corrupted_world hello_hash = hello_blob_path"
  by (simp add: contentPath_expand hello_hash_valid corrupted_fields hello_blob_path_def)

section \<open>Which database keys the workspace operations touch\<close>


lemma fileStateKey_neq_metaKey [simp]: "fileStateKey q \<noteq> metaKey h" "metaKey h \<noteq> fileStateKey q"
  by (simp_all add: fileStateKey_def metaKey_def)

lemma Store_db_other:
  "Store sha b s = (r, s') \<Longrightarrow> (\<And>h. k \<noteq> metaKey h) \<Longrightarrow> map_of (db s') k = map_of (db s) k"
  by (auto simp: Store_def Let_def incrementRefCount_def storeMeta_def os_WriteFile_def map_of_update
      split: sum.splits bool.splits option.splits prod.splits if_splits)

lemma gateFile_db_other:
  "(\<And>h. k \<noteq> metaKey h) \<Longrightarrow> map_of (db (snd (gateFile sha p s))) k = map_of (db s) k"
  by (auto simp: gateFile_def Let_def split: option.splits sum.splits prod.splits
      dest: Store_db_other)

lemma LocalTracker_Gate_db_other:
  "(\<And>h. k \<noteq> metaKey h) \<Longrightarrow> k \<noteq> ''gated:'' @ p \<Longrightarrow>
   map_of (db (snd (LocalTracker_Gate sha p s))) k = map_of (db s) k"
  by (auto simp: LocalTracker_Gate_def Let_def map_of_update split: option.splits sum.splits prod.splits
      dest: Store_db_other)

lemma map_of_filter_fst:
  "map_of (filter (\<lambda>kv. P (fst kv)) al) k = (if P k then map_of al k else None)"
  by (induction al) auto

lemma map_of_foldl_update_other:
  "k \<notin> f ` set xs \<Longrightarrow>
   map_of (foldl (\<lambda>d x. AList.update (f x) (g x) d) d0 xs) k = map_of d0 k"
  by (induction xs arbitrary: d0) (auto simp: map_of_update)

lemma untrack_loop_db:
  "map_of (db (untrack_loop ps s)) k
     = (if k \<in> fileStateKey ` set ps then None else map_of (db s) k)"
  by (induction ps arbitrary: s) (auto simp: deleteFileState_def map_of_delete)

lemma saveTrackedFiles_file_state:
  "map_of (db (saveTrackedFiles s)) (fileStateKey q) = map_of (db s) (fileStateKey q)"
proof -
  define d1 where "d1 = filter (\<lambda>kv. \<not> hasPrefix (fst kv) ''tracked:'') (db s)"
  have np: "\<not> hasPrefix (fileStateKey q) ''tracked:''"
    by (simp add: hasPrefix_def fileStateKey_def)
  have ne: "fileStateKey q \<notin> (\<lambda>pt. ''tracked:'' @ fst pt) ` set (Tracked s)"
    by (auto simp: fileStateKey_def)
  have "map_of (db (saveTrackedFiles s)) (fileStateKey q)
      = map_of (foldl (\<lambda>d pt. AList.update (''tracked:'' @ fst pt) NilVal d) d1 (Tracked s)) (fileStateKey q)"
    unfolding saveTrackedFiles_def Let_def d1_def by simp
  also have "\<dots> = map_of d1 (fileStateKey q)"
    using ne by (rule map_of_foldl_update_other)
  also have "\<dots> = map_of (db s) (fileStateKey q)"
    unfolding d1_def using np
    by (simp add: map_of_filter_fst [where P = "\<lambda>k. \<not> hasPrefix k ''tracked:''"])
  finally show ?thesis .
qed

section \<open>Telling digests apart by their last character\<close>


lemma last_hex_EncodeToString:
  "bs \<noteq> [] \<Longrightarrow> last (hex_EncodeToString bs) = hextable ! unat (take_bit 4 (last bs))"
  by (induction bs) (auto simp: hex_EncodeToString_def)

lemma last_digest_bytes: "last (digest_bytes w) = ucast w"
proof -
  have "[0..<32] = [0..<31] @ [31::nat]" by (simp add: upt_rec)
  then have "digest_bytes w = map (\<lambda>k. ucast (drop_bit (8 * (31 - k)) w)) [0..<31] @ [ucast w]"
    unfolding digest_bytes_def by simp
  then show ?thesis by simp
qed

lemma last_hashContent:
  "last (hashContent sha b) = hextable ! unat (take_bit 4 (ucast (sha b) :: 8 word))"
proof -
  have "digest_bytes (sha b) \<noteq> []"
    using length_digest_bytes [of "sha b"] by auto
  then show ?thesis
    by (simp add: hashContent_def last_hex_EncodeToString last_digest_bytes)
qed

lemma low_nibble_of_nat:
  "unat (take_bit 4 (ucast (of_nat N :: 256 word) :: 8 word)) = N mod 16"
proof -
  have "unat (take_bit 4 (ucast (of_nat N :: 256 word) :: 8 word))
      = take_bit 4 (unat (ucast (of_nat N :: 256 word) :: 8 word))"
    by (rule unsigned_take_bit_eq)
  also have "unat (ucast (of_nat N :: 256 word) :: 8 word)
      = take_bit LENGTH(8) (unat (of_nat N :: 256 word))"
    by (rule unsigned_ucast_eq)
  also have "unat (of_nat N :: 256 word) = take_bit LENGTH(256) N"
    by (simp only: unat_of_nat take_bit_eq_mod)
  also have "take_bit 4 (take_bit LENGTH(8) (take_bit LENGTH(256) N)) = take_bit 4 N"
    by (simp only: take_bit_take_bit) simp
  also have "take_bit 4 N = N mod 2 ^ 4"
    by (rule take_bit_eq_mod)
  finally show ?thesis by simp
qed


lemma last_demo_hash:
  "last (hashContent demo_sha b)
     = hextable ! (foldl (\<lambda>acc c. 256 * acc + of_char c) 1 b mod 16)"
  by (simp only: last_hashContent demo_sha_def low_nibble_of_nat)

lemma last_hello: "last hello_hash = CHR ''f''"
  unfolding hello_hash_def last_demo_hash by (simp add: hextable_def)

lemma last_hellp: "last (hashContent demo_sha ''hellp'') = CHR ''0''"
  unfolding last_demo_hash by (simp add: hextable_def)

lemma hellp_neq_hello: "hashContent demo_sha ''hellp'' \<noteq> hello_hash"
  using last_hello last_hellp by auto

section \<open>Reference counts along a run\<close>


lemma unat_inc: "unat (w :: 32 word) < 2 ^ 32 - 1 \<Longrightarrow> unat (w + 1) = unat w + 1"
  by (simp add: unat_word_ariths)

lemma unat_dec: "(w :: 32 word) \<noteq> 0 \<Longrightarrow> unat (w - 1) = unat w - 1"
  by (simp add: unat_minus_one)

lemma refs_ok_Store:
  assumes "refs_ok n s" and "Suc n < 2 ^ 32"
  shows "refs_ok (Suc n) (snd (Store sha b s))"
proof -
  have inc: "\<And>m. 1 \<le> unat (RefCount m) \<and> unat (RefCount m) \<le> n \<Longrightarrow>
      1 \<le> unat (RefCount m + 1) \<and> unat (RefCount m + 1) \<le> Suc n"
    using assms(2) by (simp add: unat_inc)
  have one: "1 \<le> unat (1 :: 32 word) \<and> unat (1 :: 32 word) \<le> Suc n" by simp
  have weak: "\<And>m. 1 \<le> unat (RefCount m) \<and> unat (RefCount m) \<le> n \<Longrightarrow>
      1 \<le> unat (RefCount m) \<and> unat (RefCount m) \<le> Suc n" by simp
  show ?thesis
    using assms(1) inc one weak
    unfolding refs_ok_def Store_def Let_def incrementRefCount_def storeMeta_def os_WriteFile_def
      getMeta_def Exists_def
    by (auto simp: map_of_update split: sum.splits bool.splits option.splits prod.splits if_splits dbval.splits)
qed


lemma refs_ok_Get: "refs_ok n s \<Longrightarrow> refs_ok n (snd (Get sha h s))"
  unfolding refs_ok_def Get_def Let_def storeMeta_def getMeta_def cache_Get_def
  by (auto simp: map_of_update split: sum.splits option.splits prod.splits if_splits dbval.splits)

lemma dec_bounds:
  assumes a: "1 \<le> unat (r :: 32 word) \<and> unat r \<le> n" and nz: "r - 1 \<noteq> 0"
  shows "1 \<le> unat (r - 1) \<and> unat (r - 1) \<le> n"
proof -
  from a have "r \<noteq> 0" by auto
  then have e: "unat (r - 1) = unat r - 1" by (rule unat_dec)
  from nz have "unat (r - 1) \<noteq> 0" by (simp add: unat_eq_0)
  with e a show ?thesis by arith
qed

lemma refs_ok_Delete:
  assumes "refs_ok n s"
  shows "refs_ok n (snd (Delete h s))"
  using assms dec_bounds
  unfolding refs_ok_def Delete_def Let_def storeMeta_def deleteMeta_def getMeta_def
  by (auto simp: map_of_update map_of_delete split: sum.splits option.splits prod.splits if_splits dbval.splits)

lemma refs_ok_mono: "refs_ok n s \<Longrightarrow> n \<le> n' \<Longrightarrow> refs_ok n' s"
  unfolding refs_ok_def by (meson le_trans)

lemma refs_ok_run_ops:
  "refs_ok n s \<Longrightarrow> n + count_stores ops < 2 ^ 32 \<Longrightarrow>
   refs_ok (n + count_stores ops) (run_ops sha ops s)"
proof (induction ops arbitrary: n s)
  case Nil
  then show ?case by (simp add: count_stores_def)
next
  case (Cons op ops)
  show ?case
  proof (cases op)
    case (OpStore b)
    with Cons.prems have b: "Suc n + count_stores ops < 2 ^ 32"
      by (simp add: count_stores_def)
    then have "Suc n < 2 ^ 32" by simp
    with Cons.prems(1) have "refs_ok (Suc n) (snd (Store sha b s))"
      by (rule refs_ok_Store)
    from Cons.IH [OF this b] OpStore show ?thesis
      by (simp add: count_stores_def)
  next
    case (OpGet h)
    with Cons.prems have b: "n + count_stores ops < 2 ^ 32"
      by (simp add: count_stores_def)
    from Cons.prems(1) have "refs_ok n (snd (Get sha h s))"
      by (rule refs_ok_Get)
    from Cons.IH [OF this b] OpGet show ?thesis
      by (simp add: count_stores_def)
  next
    case (OpDelete h)
    with Cons.prems have b: "n + count_stores ops < 2 ^ 32"
      by (simp add: count_stores_def)
    from Cons.prems(1) have "refs_ok n (snd (Delete h s))"
      by (rule refs_ok_Delete)
    from Cons.IH [OF this b] OpDelete show ?thesis
      by (simp add: count_stores_def)
  qed
qed

lemma Delete_last:
  assumes "isValidHash h" and "meta_at s h = Some (MetaVal m)" and "RefCount m = 1"
  shows "Delete h s =
     (None, s\<lparr>fs := (fs s)(contentPath s h := None),
               db := AList.delete (metaKey h) (db s),
               cache := cache_Remove h (cache s)\<rparr>)"
  using assms by (simp add: Delete_def getMeta_def meta_at_def deleteMeta_def)

lemma Delete_last_effect:
  assumes "isValidHash h" and "meta_at s h = Some (MetaVal m)" and "RefCount m = 1"
  shows "meta_at (snd (Delete h s)) h = None \<and> fs (snd (Delete h s)) (contentPath s h) = None \<and>
         map_of (cache (snd (Delete h s))) h = None"
  by (simp add: Delete_last [OF assms] meta_at_def map_of_delete cache_Remove_def)


lemma has_refs_getMeta: "has_refs h r s \<Longrightarrow> \<exists>m. getMeta h s = Inr m \<and> Hash m = h \<and> RefCount m = r"
  by (auto simp: has_refs_def getMeta_Inr)

lemma has_refs_refCountOf: "has_refs h r s \<Longrightarrow> refCountOf h s = Some r"
  by (auto simp: refCountOf_def dest: has_refs_getMeta)

lemma has_refs_Exists: "isValidHash h \<Longrightarrow> has_refs h r s \<Longrightarrow> Exists h s = Inr True"
  by (auto simp: has_refs_def intro: Exists_meta)

lemma has_refs_Store:
  assumes "has_refs (hashContent sha b) r s"
  shows "fst (Store sha b s) = Inr (hashContent sha b) \<and> has_refs (hashContent sha b) (r + 1) (snd (Store sha b s))
         \<and> fs (snd (Store sha b s)) = fs s"
proof -
  from assms obtain m where m: "meta_at s (hashContent sha b) = Some (MetaVal m)"
      "Hash m = hashContent sha b" "RefCount m = r"
    by (auto simp: has_refs_def)
  show ?thesis
    unfolding Store_existing [OF m(1)] using m(2,3)
    by (simp add: has_refs_def meta_at_def storeMeta_def map_of_update)
qed

lemma store_n_has_refs:
  "has_refs (hashContent sha b) r s \<Longrightarrow>
   has_refs (hashContent sha b) (r + of_nat n) (store_n sha b n s) \<and> fs (store_n sha b n s) = fs s"
proof (induction n arbitrary: r s)
  case 0
  then show ?case by simp
next
  case (Suc n)
  from has_refs_Store [OF Suc.prems]
  have st: "has_refs (hashContent sha b) (r + 1) (snd (Store sha b s))"
    and f: "fs (snd (Store sha b s)) = fs s" by simp_all
  from Suc.IH [OF st] f show ?case
    by (simp add: ac_simps)
qed

lemma Store_fresh:
  assumes "meta_at s (hashContent sha b) = None" and "map_of (cache s) (hashContent sha b) = None"
    and "contentPath s (hashContent sha b) \<notin> writeFails s"
  shows "fst (Store sha b s) = Inr (hashContent sha b)"
    and "has_refs (hashContent sha b) 1 (snd (Store sha b s))"
    and "fs (snd (Store sha b s))
           = (fs s)(contentPath s (hashContent sha b) \<mapsto>
                \<lparr>fdata = b, fmode = (case fs s (contentPath s (hashContent sha b)) of None \<Rightarrow> 420 | Some f \<Rightarrow> fmode f),
                 fmodTime = now s\<rparr>)"
  unfolding Store_new [OF assms]
  by (simp_all add: has_refs_def meta_at_def storeMeta_def os_WriteFile_def map_of_update)

lemma store_n_fresh:
  assumes "meta_at s (hashContent sha b) = None" and "map_of (cache s) (hashContent sha b) = None"
    and "contentPath s (hashContent sha b) \<notin> writeFails s" and "0 < n"
  shows "has_refs (hashContent sha b) (of_nat n) (store_n sha b n s)"
proof -
  from assms(4) obtain k where n: "n = Suc k" by (cases n) auto
  from store_n_has_refs [OF Store_fresh(2) [OF assms(1-3)], of k]
  show ?thesis by (simp add: n add.commute)
qed

lemma run_ops_replicate_store: "run_ops sha (replicate n (OpStore b)) s = store_n sha b n s"
  by (induction n arbitrary: s) simp_all

lemma empty_world_fresh:
  "meta_at empty_world h = None" "map_of (cache empty_world) h = None"
  "contentPath empty_world h \<notin> writeFails empty_world" "db empty_world = []"
  by (simp_all add: meta_at_def empty_world_def)


lemma safeRoot_Store [simp]: "safeRoot (snd (Store sha b s)) = safeRoot s"
  by (auto simp: Store_def Let_def incrementRefCount_def storeMeta_def os_WriteFile_def
      split: sum.splits bool.splits option.splits prod.splits)

lemma safeRoot_Delete [simp]: "safeRoot (snd (Delete h s)) = safeRoot s"
  by (auto simp: Delete_def Let_def storeMeta_def deleteMeta_def split: sum.splits)

lemma contentPath_cong: "safeRoot s' = safeRoot s \<Longrightarrow> contentPath s' h = contentPath s h"
  by (simp add: contentPath_def)

lemma safeRoot_store_n [simp]: "safeRoot (store_n sha b n s) = safeRoot s"
  by (induction n arbitrary: s) simp_all

lemma safeRoot_delete_n [simp]: "safeRoot (delete_n h n s) = safeRoot s"
  by (induction n arbitrary: s) simp_all

lemma word32_of_nat_nonzero: "0 < j \<Longrightarrow> j < 2 ^ 32 \<Longrightarrow> (of_nat j :: 32 word) \<noteq> 0"
proof
  assume j: "0 < j" "j < 2 ^ 32" and z: "(of_nat j :: 32 word) = 0"
  from z have "unat (of_nat j :: 32 word) = 0" by simp
  moreover from j(2) have "unat (of_nat j :: 32 word) = j"
    by (simp add: unat_of_nat)
  ultimately show False using j(1) by simp
qed

lemma has_refs_Delete_dec:
  assumes "isValidHash h" and "has_refs h r s" and "r - 1 \<noteq> 0"
  shows "has_refs h (r - 1) (snd (Delete h s))"
proof -
  from assms(2) obtain m where m: "meta_at s h = Some (MetaVal m)" "Hash m = h" "RefCount m = r"
    by (auto simp: has_refs_def)
  with assms(1,3) show ?thesis
    by (simp add: Delete_def getMeta_def meta_at_def storeMeta_def has_refs_def map_of_update)
qed

lemma has_refs_Delete_last:
  assumes "isValidHash h" and "has_refs h 1 s"
  shows "meta_at (snd (Delete h s)) h = None \<and> fs (snd (Delete h s)) (contentPath s h) = None \<and>
         map_of (cache (snd (Delete h s))) h = None"
  using assms Delete_last_effect by (auto simp: has_refs_def)

lemma delete_n_partial:
  "isValidHash h \<Longrightarrow> has_refs h (of_nat n) s \<Longrightarrow> k < n \<Longrightarrow> n < 2 ^ 32 \<Longrightarrow>
   has_refs h (of_nat (n - k)) (delete_n h k s)"
proof (induction k arbitrary: n s)
  case 0
  then show ?case by simp
next
  case (Suc k)
  from Suc.prems(3) obtain j where n: "n = Suc j" by (cases n) auto
  with Suc.prems have j: "0 < j" "j < 2 ^ 32" "k < j" by simp_all
  have "(of_nat n :: 32 word) - 1 = of_nat j" by (simp add: n)
  moreover have "(of_nat j :: 32 word) \<noteq> 0" using j(1,2) by (rule word32_of_nat_nonzero)
  ultimately have "has_refs h (of_nat j) (snd (Delete h s))"
    using has_refs_Delete_dec [OF Suc.prems(1,2)] by simp
  from Suc.IH [OF Suc.prems(1) this j(3,2)] show ?case
    by (simp add: n)
qed

lemma delete_n_all:
  "isValidHash h \<Longrightarrow> has_refs h (of_nat n) s \<Longrightarrow> 0 < n \<Longrightarrow> n < 2 ^ 32 \<Longrightarrow>
   meta_at (delete_n h n s) h = None \<and> fs (delete_n h n s) (contentPath s h) = None \<and>
   map_of (cache (delete_n h n s)) h = None"
proof (induction n arbitrary: s)
  case 0
  then show ?case by simp
next
  case (Suc j)
  show ?case
  proof (cases "j = 0")
    case True
    with Suc.prems(2) have "has_refs h 1 s" by simp
    from has_refs_Delete_last [OF Suc.prems(1) this] True show ?thesis by simp
  next
    case False
    with Suc.prems have j: "0 < j" "j < 2 ^ 32" by simp_all
    have "(of_nat (Suc j) :: 32 word) - 1 = of_nat j" by simp
    moreover have "(of_nat j :: 32 word) \<noteq> 0" using j by (rule word32_of_nat_nonzero)
    ultimately have "has_refs h (of_nat j) (snd (Delete h s))"
      using has_refs_Delete_dec [OF Suc.prems(1,2)] by simp
    from Suc.IH [OF Suc.prems(1) this j]
    show ?thesis by (simp add: contentPath_cong [of "snd (Delete h s)" s])
  qed
qed

section \<open>What the store holds under a hash\<close>


lemma contentPath_inj:
  assumes "isValidHash h" and "isValidHash h'" and "contentPath s h = contentPath s h'"
  shows "h = h'"
proof -
  from assms(1,2) have l: "length h = 64" "length h' = 64"
    by (simp_all add: isValidHash_iff)
  then have ne: "take 2 h \<noteq> []" "drop 2 h \<noteq> []" "take 2 h' \<noteq> []" "drop 2 h' \<noteq> []"
    by auto
  have "take 2 h @ CHR ''/'' # drop 2 h = take 2 h' @ CHR ''/'' # drop 2 h'"
    using assms(3) ne
    by (cases "safeRoot s = []") (simp_all add: contentPath_def filepath_Join_def)
  moreover have "length (take 2 h) = length (take 2 h')" using l by simp
  ultimately have "take 2 h = take 2 h' \<and> drop 2 h = drop 2 h'"
    by (simp add: append_eq_append_conv)
  then show ?thesis
    by (metis append_take_drop_id)
qed

lemma map_of_butlast: "map_of (butlast c) k = Some v \<Longrightarrow> map_of c k = Some v"
  by (induction c) (auto split: if_splits)

lemma cache_Add_same: "map_of (cache_Add cap k v c) k = Some v"
  by (simp add: cache_Add_def)

lemma cache_Add_other:
  "k' \<noteq> k \<Longrightarrow> map_of (cache_Add cap k v c) k' = Some v' \<Longrightarrow> map_of c k' = Some v'"
  by (auto simp: cache_Add_def map_of_delete dest: map_of_butlast split: if_splits)

lemma cache_Get_map:
  "map_of (snd (cache_Get k c)) k' = map_of c k'"
  by (auto simp: cache_Get_def map_of_delete split: option.splits)


lemma keys_ok_Store: "keys_ok s \<Longrightarrow> keys_ok (snd (Store sha c s))"
  unfolding keys_ok_def meta_at_def Store_def Let_def incrementRefCount_def storeMeta_def
    os_WriteFile_def getMeta_def Exists_def
  by (auto simp: map_of_update split: sum.splits bool.splits option.splits prod.splits if_splits dbval.splits)

lemma keys_ok_Get: "keys_ok s \<Longrightarrow> keys_ok (snd (Get sha h s))"
  unfolding keys_ok_def meta_at_def Get_def Let_def storeMeta_def getMeta_def cache_Get_def
  by (auto simp: map_of_update split: sum.splits option.splits prod.splits if_splits dbval.splits)

lemma keys_ok_Delete: "keys_ok s \<Longrightarrow> keys_ok (snd (Delete h s))"
  unfolding keys_ok_def meta_at_def Delete_def Let_def storeMeta_def deleteMeta_def getMeta_def
  by (auto simp: map_of_update map_of_delete split: sum.splits option.splits prod.splits if_splits dbval.splits)


lemma Store_state:
  "snd (Store sha c s) = s \<or>
   (\<exists>m. meta_at s (hashContent sha c) = Some (MetaVal m) \<and>
        snd (Store sha c s) = storeMeta (m\<lparr>RefCount := RefCount m + 1\<rparr>) s) \<or>
   (meta_at s (hashContent sha c) = None \<and> map_of (cache s) (hashContent sha c) = None \<and>
    snd (Store sha c s) =
      (storeMeta \<lparr>Hash = hashContent sha c, Size = int (length c), RefCount = 1,
                 Compressed = False, CreatedAt = now s, AccessedAt = now s\<rparr>
         (os_WriteFile (contentPath s (hashContent sha c)) c s))
       \<lparr>cache := cache_Add (cacheSize s) (hashContent sha c) c (cache s)\<rparr>)"
proof (cases "meta_at s (hashContent sha c)")
  case None
  show ?thesis
  proof (cases "map_of (cache s) (hashContent sha c) = None \<and> contentPath s (hashContent sha c) \<notin> writeFails s")
    case True
    with None show ?thesis by (simp add: Store_new)
  next
    case False
    with None have "snd (Store sha c s) = s"
      by (auto simp: Store_def Let_def Exists_def incrementRefCount_def getMeta_def meta_at_def
          cache_Contains_def isValidHash_hashContent)
    then show ?thesis by simp
  qed
next
  case (Some x)
  show ?thesis
  proof (cases x)
    case (MetaVal m)
    with Some show ?thesis by (simp add: Store_existing)
  next
    case (ChangeVal x2)
    with Some have "snd (Store sha c s) = s"
      by (auto simp: Store_def Let_def Exists_def incrementRefCount_def getMeta_def meta_at_def
          isValidHash_hashContent)
    then show ?thesis by simp
  next
    case (FileStateVal x3)
    with Some have "snd (Store sha c s) = s"
      by (auto simp: Store_def Let_def Exists_def incrementRefCount_def getMeta_def meta_at_def
          isValidHash_hashContent)
    then show ?thesis by simp
  next
    case NilVal
    with Some have "snd (Store sha c s) = s"
      by (auto simp: Store_def Let_def Exists_def incrementRefCount_def getMeta_def meta_at_def
          isValidHash_hashContent)
    then show ?thesis by simp
  qed
qed

lemma Get_state:
  "snd (Get sha h s) = s \<or>
   (\<exists>v. map_of (cache s) h = Some v \<and>
        snd (Get sha h s) = s\<lparr>cache := (h, v) # AList.delete h (cache s)\<rparr>) \<or>
   (\<exists>m f. meta_at s h = Some (MetaVal m) \<and> fs s (contentPath s h) = Some f \<and> \<not> Compressed m \<and>
        snd (Get sha h s) =
          storeMeta (m\<lparr>AccessedAt := now s\<rparr>)
            (s\<lparr>cache := cache_Add (cacheSize s) h (fdata f) (cache s)\<rparr>))"
  by (auto simp: Get_def Let_def cache_Get_def getMeta_def meta_at_def
      split: option.splits sum.splits dbval.splits)

lemma Delete_state:
  "snd (Delete h s) = s \<or>
   (\<exists>m. isValidHash h \<and> meta_at s h = Some (MetaVal m) \<and>
      (snd (Delete h s) =
         s\<lparr>fs := (fs s)(contentPath s h := None), db := AList.delete (metaKey h) (db s),
            cache := cache_Remove h (cache s)\<rparr> \<or>
       snd (Delete h s) = storeMeta (m\<lparr>RefCount := RefCount m - 1\<rparr>) s))"
  by (auto simp: Delete_def Let_def getMeta_def meta_at_def deleteMeta_def
      split: option.splits sum.splits dbval.splits)


lemma storeMeta_fields [simp]:
  "fs (storeMeta m s) = fs s" "cache (storeMeta m s) = cache s"
  "safeRoot (storeMeta m s) = safeRoot s" "contentPath (storeMeta m s) h = contentPath s h"
  "meta_at (storeMeta m s) h = (if h = Hash m then Some (MetaVal m) else meta_at s h)"
  by (auto simp: storeMeta_def contentPath_def meta_at_def map_of_update)

lemma cache_update_fields [simp]:
  "fs (s\<lparr>cache := c\<rparr>) = fs s" "contentPath (s\<lparr>cache := c\<rparr>) h = contentPath s h"
  "meta_at (s\<lparr>cache := c\<rparr>) h = meta_at s h"
  by (simp_all add: contentPath_def meta_at_def)

lemma slot_storeMeta:
  assumes "slot_holds sha b s" and "meta_at s k = Some (MetaVal m)" and "Hash m' = k"
    and "Compressed m' = Compressed m"
  shows "slot_holds sha b (storeMeta m' s)"
  using assms unfolding slot_holds_def by auto

lemma slot_cache:
  assumes "slot_holds sha b s"
    and "\<And>v. map_of c (hashContent sha b) = Some v \<Longrightarrow> v = b \<and> meta_at s (hashContent sha b) \<noteq> None"
  shows "slot_holds sha b (s\<lparr>cache := c\<rparr>)"
  using assms unfolding slot_holds_def by auto

lemma slot_Store_new:
  assumes "slot_holds sha b s" and "hashContent sha c = hashContent sha b \<longrightarrow> c = b"
  shows "slot_holds sha b
      ((storeMeta \<lparr>Hash = hashContent sha c, Size = int (length c), RefCount = 1,
                 Compressed = False, CreatedAt = now s, AccessedAt = now s\<rparr>
         (os_WriteFile (contentPath s (hashContent sha c)) c s))
       \<lparr>cache := cache_Add (cacheSize s) (hashContent sha c) c (cache s)\<rparr>)"
proof (cases "hashContent sha c = hashContent sha b")
  case True
  with assms(2) have "c = b" by simp
  then show ?thesis
    unfolding slot_holds_def
    by (simp add: cache_Add_same os_WriteFile_def contentPath_def meta_at_def storeMeta_def map_of_update)
next
  case False
  then have p: "contentPath s (hashContent sha b) \<noteq> contentPath s (hashContent sha c)"
    using contentPath_inj [OF isValidHash_hashContent isValidHash_hashContent] by metis
  have c: "\<And>v. map_of (cache_Add (cacheSize s) (hashContent sha c) c (cache s)) (hashContent sha b) = Some v
      \<Longrightarrow> map_of (cache s) (hashContent sha b) = Some v"
    using False by (metis cache_Add_other)
  show ?thesis
    using assms(1) False p c
    unfolding slot_holds_def
    by (auto simp: os_WriteFile_def contentPath_def meta_at_def storeMeta_def map_of_update)
qed

lemma slot_holds_Store:
  assumes "keys_ok s" and "slot_holds sha b s" and "hashContent sha c = hashContent sha b \<longrightarrow> c = b"
  shows "slot_holds sha b (snd (Store sha c s))"
  using Store_state [of sha c s]
proof (elim disjE exE conjE)
  assume "snd (Store sha c s) = s"
  with assms(2) show ?thesis by simp
next
  fix m
  assume m: "meta_at s (hashContent sha c) = Some (MetaVal m)"
    and st: "snd (Store sha c s) = storeMeta (m\<lparr>RefCount := RefCount m + 1\<rparr>) s"
  from assms(1) m have "Hash m = hashContent sha c" by (simp add: keys_ok_def)
  with assms(2) m show ?thesis
    unfolding st by (intro slot_storeMeta [where k = "hashContent sha c" and m = m]) simp_all
next
  assume "snd (Store sha c s) =
      (storeMeta \<lparr>Hash = hashContent sha c, Size = int (length c), RefCount = 1,
                 Compressed = False, CreatedAt = now s, AccessedAt = now s\<rparr>
         (os_WriteFile (contentPath s (hashContent sha c)) c s))
       \<lparr>cache := cache_Add (cacheSize s) (hashContent sha c) c (cache s)\<rparr>"
  with slot_Store_new [OF assms(2,3)] show ?thesis by simp
qed


lemma slot_holds_Get:
  assumes "keys_ok s" and "slot_holds sha b s"
  shows "slot_holds sha b (snd (Get sha h s))"
  using Get_state [of sha h s]
proof (elim disjE exE conjE)
  assume "snd (Get sha h s) = s"
  with assms(2) show ?thesis by simp
next
  fix v
  assume v: "map_of (cache s) h = Some v"
    and st: "snd (Get sha h s) = s\<lparr>cache := (h, v) # AList.delete h (cache s)\<rparr>"
  show ?thesis
    unfolding st
  proof (rule slot_cache [OF assms(2)])
    fix v'
    assume "map_of ((h, v) # AList.delete h (cache s)) (hashContent sha b) = Some v'"
    with v have "map_of (cache s) (hashContent sha b) = Some v'"
      by (auto simp: map_of_delete split: if_splits)
    with assms(2) show "v' = b \<and> meta_at s (hashContent sha b) \<noteq> None"
      by (simp add: slot_holds_def)
  qed
next
  fix m f
  assume m: "meta_at s h = Some (MetaVal m)" and f: "fs s (contentPath s h) = Some f"
    and st: "snd (Get sha h s) =
          storeMeta (m\<lparr>AccessedAt := now s\<rparr>)
            (s\<lparr>cache := cache_Add (cacheSize s) h (fdata f) (cache s)\<rparr>)"
  from assms(1) m have hm: "Hash m = h" by (simp add: keys_ok_def)
  have c: "slot_holds sha b (s\<lparr>cache := cache_Add (cacheSize s) h (fdata f) (cache s)\<rparr>)"
  proof (rule slot_cache [OF assms(2)])
    fix v'
    assume a: "map_of (cache_Add (cacheSize s) h (fdata f) (cache s)) (hashContent sha b) = Some v'"
    show "v' = b \<and> meta_at s (hashContent sha b) \<noteq> None"
    proof (cases "hashContent sha b = h")
      case True
      with a have "v' = fdata f" by (simp add: cache_Add_same)
      with True m f assms(2) show ?thesis
        by (auto simp: slot_holds_def)
    next
      case False
      with a have "map_of (cache s) (hashContent sha b) = Some v'"
        by (metis cache_Add_other)
      with assms(2) show ?thesis by (simp add: slot_holds_def)
    qed
  qed
  show ?thesis
    unfolding st
    by (rule slot_storeMeta [OF c, where k = h and m = m]) (simp_all add: m hm)
qed

lemma slot_holds_Delete:
  assumes "keys_ok s" and "slot_holds sha b s"
  shows "slot_holds sha b (snd (Delete h s))"
  using Delete_state [of h s]
proof (elim disjE exE conjE)
  assume "snd (Delete h s) = s"
  with assms(2) show ?thesis by simp
next
  fix m
  assume v: "isValidHash h" and m: "meta_at s h = Some (MetaVal m)"
    and st: "snd (Delete h s) =
         s\<lparr>fs := (fs s)(contentPath s h := None), db := AList.delete (metaKey h) (db s),
            cache := cache_Remove h (cache s)\<rparr>"
  show ?thesis
  proof (cases "hashContent sha b = h")
    case True
    then show ?thesis
      unfolding st slot_holds_def
      by (simp add: meta_at_def map_of_delete cache_Remove_def)
  next
    case False
    then have p: "contentPath s (hashContent sha b) \<noteq> contentPath s h"
      using contentPath_inj [OF isValidHash_hashContent v] by metis
    with assms(2) False show ?thesis
      unfolding st slot_holds_def
      by (auto simp: meta_at_def map_of_delete cache_Remove_def contentPath_def)
  qed
next
  fix m
  assume m: "meta_at s h = Some (MetaVal m)"
    and st: "snd (Delete h s) = storeMeta (m\<lparr>RefCount := RefCount m - 1\<rparr>) s"
  from assms(1) m have "Hash m = h" by (simp add: keys_ok_def)
  with assms(2) m show ?thesis
    unfolding st by (intro slot_storeMeta [where k = h and m = m]) simp_all
qed

lemma inv_run_ops:
  "keys_ok s \<Longrightarrow> slot_holds sha b s \<Longrightarrow> no_collision sha b (stored_contents ops) \<Longrightarrow>
   keys_ok (run_ops sha ops s) \<and> slot_holds sha b (run_ops sha ops s)"
proof (induction ops arbitrary: s)
  case Nil
  then show ?case by simp
next
  case (Cons op ops)
  show ?case
  proof (cases op)
    case (OpStore c)
    with Cons.prems(3) have nc: "hashContent sha c = hashContent sha b \<longrightarrow> c = b"
      and rest: "no_collision sha b (stored_contents ops)"
      by (simp_all add: no_collision_def)
    from Cons.IH [OF keys_ok_Store [OF Cons.prems(1)] slot_holds_Store [OF Cons.prems(1,2) nc] rest]
    show ?thesis using OpStore by simp
  next
    case (OpGet h)
    with Cons.prems(3) have rest: "no_collision sha b (stored_contents ops)" by simp
    from Cons.IH [OF keys_ok_Get [OF Cons.prems(1)] slot_holds_Get [OF Cons.prems(1,2)] rest]
    show ?thesis using OpGet by simp
  next
    case (OpDelete h)
    with Cons.prems(3) have rest: "no_collision sha b (stored_contents ops)" by simp
    from Cons.IH [OF keys_ok_Delete [OF Cons.prems(1)] slot_holds_Delete [OF Cons.prems(1,2)] rest]
    show ?thesis using OpDelete by simp
  qed
qed


lemma writeFails_Store [simp]: "writeFails (snd (Store sha c s)) = writeFails s"
  using Store_state [of sha c s] by (auto simp: storeMeta_def os_WriteFile_def)

lemma frame_Get [simp]:
  "writeFails (snd (Get sha h s)) = writeFails s" "safeRoot (snd (Get sha h s)) = safeRoot s"
  using Get_state [of sha h s] by (auto simp: storeMeta_def)

lemma writeFails_Delete [simp]: "writeFails (snd (Delete h s)) = writeFails s"
  using Delete_state [of h s] by (auto simp: storeMeta_def)

lemma frame_run_ops [simp]:
  "writeFails (run_ops sha ops s) = writeFails s" "safeRoot (run_ops sha ops s) = safeRoot s"
proof -
  have "writeFails (run_ops sha ops s) = writeFails s \<and> safeRoot (run_ops sha ops s) = safeRoot s"
  proof (induction ops arbitrary: s)
    case Nil
    then show ?case by simp
  next
    case (Cons op ops)
    then show ?case by (cases op) simp_all
  qed
  then show "writeFails (run_ops sha ops s) = writeFails s" "safeRoot (run_ops sha ops s) = safeRoot s"
    by simp_all
qed

lemma roundtrip_core:
  assumes k: "keys_ok s" and sl: "slot_holds sha b s"
    and w: "contentPath s (hashContent sha b) \<notin> writeFails s"
  shows "fst (Store sha b s) = Inr (hashContent sha b) \<and>
         fst (Get sha (hashContent sha b) (snd (Store sha b s))) = Inr b"
proof (cases "meta_at s (hashContent sha b)")
  case None
  with sl have c: "map_of (cache s) (hashContent sha b) = None"
    by (cases "map_of (cache s) (hashContent sha b)") (auto simp: slot_holds_def)
  have "map_of (cache (snd (Store sha b s))) (hashContent sha b) = Some b"
    unfolding Store_new [OF None c w] by (simp add: cache_Add_same)
  then have "fst (Get sha (hashContent sha b) (snd (Store sha b s))) = Inr b"
    by (rule Get_cache_hit [OF isValidHash_hashContent])
  with Store_fresh(1) [OF None c w] show ?thesis by simp
next
  case (Some x)
  with sl obtain m f where m: "x = MetaVal m" "\<not> Compressed m"
      "fs s (contentPath s (hashContent sha b)) = Some f" "fdata f = b"
    by (auto simp: slot_holds_def)
  from Some m(1) have ma: "meta_at s (hashContent sha b) = Some (MetaVal m)" by simp
  with k have hm: "Hash m = hashContent sha b" by (simp add: keys_ok_def)
  note st = Store_existing [OF ma]
  have g: "fst (Get sha (hashContent sha b) (storeMeta (m\<lparr>RefCount := RefCount m + 1\<rparr>) s)) = Inr b"
  proof (cases "map_of (cache s) (hashContent sha b)")
    case None
    then show ?thesis
      using m(2,3,4) hm
      by (simp add: Get_def isValidHash_hashContent cache_Get_def getMeta_def
          meta_at_def [symmetric] Let_def)
  next
    case (Some v)
    with sl have "v = b" by (simp add: slot_holds_def)
    with Some show ?thesis
      by (simp add: Get_cache_hit isValidHash_hashContent)
  qed
  show ?thesis
    unfolding st using g by simp
qed

lemma last_empty_hash: "last (hashContent demo_sha []) = CHR ''1''"
  unfolding last_demo_hash by (simp add: hextable_def)

section \<open>Invariants of the store under damage to its files\<close>

lemma cache_ok_Add:
  assumes "cache_ok sha s" and "hashContent sha v = k"
    and "cache s' = cache_Add cap k v (cache s)"
  shows "cache_ok sha s'"
  unfolding cache_ok_def
proof (intro allI impI)
  fix h w
  assume a: "map_of (cache s') h = Some w"
  show "hashContent sha w = h"
  proof (cases "h = k")
    case True
    with a assms(2,3) show ?thesis by (simp add: cache_Add_same)
  next
    case False
    with a assms(3) have "map_of (cache s) h = Some w"
      by (auto dest: cache_Add_other)
    with assms(1) show ?thesis by (simp add: cache_ok_def)
  qed
qed

lemma cache_ok_same: "cache_ok sha s \<Longrightarrow> cache s' = cache s \<Longrightarrow> cache_ok sha s'"
  by (simp add: cache_ok_def)

lemma cache_ok_Store: "cache_ok sha s \<Longrightarrow> cache_ok sha (snd (Store sha c s))"
  using Store_state [of sha c s]
  by (elim disjE exE conjE)
     (auto intro: cache_ok_same cache_ok_Add [where v = c and k = "hashContent sha c"])

lemma Get_cache:
  "cache (snd (Get sha h s)) = cache s \<or>
   (\<exists>v. map_of (cache s) h = Some v \<and>
        cache (snd (Get sha h s)) = (h, v) # AList.delete h (cache s)) \<or>
   (\<exists>f :: osfile. hashContent sha (fdata f) = h \<and>
        cache (snd (Get sha h s)) = cache_Add (cacheSize s) h (fdata f) (cache s))"
proof (cases "isValidHash h \<and> map_of (cache s) h = None")
  case False
  then show ?thesis
    by (auto simp: Get_def cache_Get_def split: option.splits)
next
  case miss: True
  show ?thesis
  proof (cases "getMeta h s")
    case (Inl e)
    with miss show ?thesis by (simp add: Get_def cache_Get_def)
  next
    case (Inr meta)
    show ?thesis
    proof (cases "fs s (contentPath s h)")
      case None
      with miss Inr show ?thesis by (simp add: Get_def cache_Get_def)
    next
      case (Some f)
      show ?thesis
      proof (cases "\<not> Compressed meta \<and> hashContent sha (fdata f) = h")
        case False
        with miss Inr Some show ?thesis by (auto simp: Get_def cache_Get_def)
      next
        case True
        with miss Inr Some have
          "cache (snd (Get sha h s)) = cache_Add (cacheSize s) h (fdata f) (cache s)"
          by (simp add: Get_def cache_Get_def Let_def)
        with True show ?thesis by blast
      qed
    qed
  qed
qed

lemma cache_ok_Get: "cache_ok sha s \<Longrightarrow> cache_ok sha (snd (Get sha h s))"
proof -
  assume c: "cache_ok sha s"
  from Get_cache [of sha h s] show ?thesis
  proof (elim disjE exE conjE)
    assume "cache (snd (Get sha h s)) = cache s"
    with c show ?thesis by (rule cache_ok_same)
  next
    fix v
    assume "map_of (cache s) h = Some v"
      and "cache (snd (Get sha h s)) = (h, v) # AList.delete h (cache s)"
    with c show ?thesis by (auto simp: cache_ok_def map_of_delete split: if_splits)
  next
    fix f :: osfile
    assume "hashContent sha (fdata f) = h"
      and "cache (snd (Get sha h s)) = cache_Add (cacheSize s) h (fdata f) (cache s)"
    with c show ?thesis by (rule cache_ok_Add)
  qed
qed

lemma cache_ok_Delete: "cache_ok sha s \<Longrightarrow> cache_ok sha (snd (Delete h s))"
  using Delete_state [of h s]
  by (elim disjE exE conjE)
     (auto simp: cache_ok_def cache_Remove_def map_of_delete split: if_splits)

lemma cache_ok_Damage: "cache_ok sha s \<Longrightarrow> cache_ok sha (s\<lparr>fs := d\<rparr>)"
  by (simp add: cache_ok_def)

lemma meta_at_os_WriteFile [simp]: "meta_at (os_WriteFile p c s) h = meta_at s h"
  by (simp add: os_WriteFile_def meta_at_def)

lemma plain_metas_storeMeta:
  "plain_metas s \<Longrightarrow> \<not> Compressed m \<Longrightarrow> plain_metas (storeMeta m s)"
  by (simp add: plain_metas_def)

lemma plain_metas_same:
  "plain_metas s \<Longrightarrow> (\<And>h. meta_at s' h = meta_at s h) \<Longrightarrow> plain_metas s'"
  by (simp add: plain_metas_def)

lemma plain_metas_D: "plain_metas s \<Longrightarrow> meta_at s h = Some (MetaVal m) \<Longrightarrow> \<not> Compressed m"
  by (auto simp: plain_metas_def)

lemma plain_metas_Store: "plain_metas s \<Longrightarrow> plain_metas (snd (Store sha c s))"
proof -
  assume p: "plain_metas s"
  from Store_state [of sha c s] show ?thesis
  proof (elim disjE exE conjE)
    assume "snd (Store sha c s) = s"
    with p show ?thesis by simp
  next
    fix m
    assume m: "meta_at s (hashContent sha c) = Some (MetaVal m)"
      and e: "snd (Store sha c s) = storeMeta (m\<lparr>RefCount := RefCount m + 1\<rparr>) s"
    from p m have "\<not> Compressed m" by (rule plain_metas_D)
    with p show ?thesis unfolding e by (intro plain_metas_storeMeta) simp_all
  next
    assume e: "snd (Store sha c s) =
      (storeMeta \<lparr>Hash = hashContent sha c, Size = int (length c), RefCount = 1,
                 Compressed = False, CreatedAt = now s, AccessedAt = now s\<rparr>
         (os_WriteFile (contentPath s (hashContent sha c)) c s))
       \<lparr>cache := cache_Add (cacheSize s) (hashContent sha c) c (cache s)\<rparr>"
    from p have "plain_metas (os_WriteFile (contentPath s (hashContent sha c)) c s)"
      by (rule plain_metas_same) simp
    then have "plain_metas (storeMeta \<lparr>Hash = hashContent sha c, Size = int (length c), RefCount = 1,
                 Compressed = False, CreatedAt = now s, AccessedAt = now s\<rparr>
         (os_WriteFile (contentPath s (hashContent sha c)) c s))"
      by (rule plain_metas_storeMeta) simp
    then show ?thesis unfolding e by (rule plain_metas_same) simp
  qed
qed

lemma plain_metas_Get: "plain_metas s \<Longrightarrow> plain_metas (snd (Get sha h s))"
proof -
  assume p: "plain_metas s"
  from Get_state [of sha h s] show ?thesis
  proof (elim disjE exE conjE)
    assume "snd (Get sha h s) = s"
    with p show ?thesis by simp
  next
    fix v
    assume "snd (Get sha h s) = s\<lparr>cache := (h, v) # AList.delete h (cache s)\<rparr>"
    with p show ?thesis by (simp add: plain_metas_def)
  next
    fix m and f :: osfile
    assume m: "\<not> Compressed m"
      and e: "snd (Get sha h s) =
          storeMeta (m\<lparr>AccessedAt := now s\<rparr>)
            (s\<lparr>cache := cache_Add (cacheSize s) h (fdata f) (cache s)\<rparr>)"
    from p have "plain_metas (s\<lparr>cache := cache_Add (cacheSize s) h (fdata f) (cache s)\<rparr>)"
      by (rule plain_metas_same) simp
    with m show ?thesis unfolding e by (intro plain_metas_storeMeta) simp_all
  qed
qed

lemma plain_metas_Delete: "plain_metas s \<Longrightarrow> plain_metas (snd (Delete h s))"
proof -
  assume p: "plain_metas s"
  from Delete_state [of h s] show ?thesis
  proof (elim disjE exE conjE)
    assume "snd (Delete h s) = s"
    with p show ?thesis by simp
  next
    fix m
    assume "snd (Delete h s) =
         s\<lparr>fs := (fs s)(contentPath s h := None), db := AList.delete (metaKey h) (db s),
            cache := cache_Remove h (cache s)\<rparr>"
    with p show ?thesis
      by (auto simp: plain_metas_def meta_at_def map_of_delete split: if_splits)
  next
    fix m
    assume m: "meta_at s h = Some (MetaVal m)"
      and e: "snd (Delete h s) = storeMeta (m\<lparr>RefCount := RefCount m - 1\<rparr>) s"
    from p m have "\<not> Compressed m" by (rule plain_metas_D)
    with p show ?thesis unfolding e by (intro plain_metas_storeMeta) simp_all
  qed
qed

lemma plain_metas_Damage: "plain_metas s \<Longrightarrow> plain_metas (s\<lparr>fs := d\<rparr>)"
  by (simp add: plain_metas_def meta_at_def)

lemma inv_apply_event:
  assumes "cache_ok sha s \<and> plain_metas s"
  shows "cache_ok sha (apply_event sha e s) \<and> plain_metas (apply_event sha e s)"
proof (cases e)
  case (Call op)
  with assms show ?thesis
    by (cases op)
       (simp_all add: cache_ok_Store cache_ok_Get cache_ok_Delete
          plain_metas_Store plain_metas_Get plain_metas_Delete)
next
  case (Damage d)
  with assms show ?thesis by (simp add: cache_ok_Damage plain_metas_Damage)
qed

lemma inv_run_events:
  "cache_ok sha s \<and> plain_metas s \<Longrightarrow>
   cache_ok sha (run_events sha es s) \<and> plain_metas (run_events sha es s)"
proof (induction es arbitrary: s)
  case Nil
  then show ?case by simp
next
  case (Cons e es)
  from Cons.prems have "cache_ok sha (apply_event sha e s) \<and> plain_metas (apply_event sha e s)"
    by (rule inv_apply_event)
  then show ?case by (simp add: Cons.IH)
qed

lemma inv_empty: "db s = [] \<Longrightarrow> cache s = [] \<Longrightarrow> cache_ok sha s \<and> plain_metas s"
  by (simp add: cache_ok_def plain_metas_def meta_at_def)

lemma small_cache_fields:
  "db small_cache_world = []" "cache small_cache_world = []"
  "writeFails small_cache_world = {}" "cacheSize small_cache_world = 1"
  "safeRoot small_cache_world = ''/repo/.tig/content''" "now small_cache_world = 0"
  by (simp_all add: small_cache_world_def file_world_fields)

lemma Store_hello_small:
  "snd (Store demo_sha ''hello'' small_cache_world) = stored_world\<lparr>cacheSize := 1\<rparr>"
proof -
  have cp: "contentPath small_cache_world hello_hash = hello_blob_path"
    by (simp add: contentPath_expand hello_hash_valid small_cache_fields hello_blob_path_def)
  have "Store demo_sha ''hello'' small_cache_world =
     (Inr hello_hash,
      (storeMeta \<lparr>Hash = hello_hash, Size = int (length ''hello''), RefCount = 1,
                 Compressed = False, CreatedAt = now small_cache_world,
                 AccessedAt = now small_cache_world\<rparr>
         (os_WriteFile (contentPath small_cache_world hello_hash) ''hello'' small_cache_world))
       \<lparr>cache := cache_Add (cacheSize small_cache_world) hello_hash ''hello''
                  (cache small_cache_world)\<rparr>)"
    unfolding hello_hash_def
    by (rule Store_new) (simp_all add: meta_at_def small_cache_fields)
  also have "\<dots> = (Inr hello_hash, stored_world\<lparr>cacheSize := 1\<rparr>)"
    unfolding cp
    by (simp add: storeMeta_def os_WriteFile_def cache_Add_def small_cache_world_def
        file_world_def empty_world_def stored_world_def hello_meta_def)
  finally show ?thesis by simp
qed

lemma evicted_corrupted_unfold:
  "evicted_corrupted_world =
     snd (Store demo_sha ''hellp'' (stored_world\<lparr>cacheSize := 1, fs := fs corrupted_world\<rparr>))"
  by (simp add: evicted_corrupted_world_def Store_hello_small)

lemma evicted_corrupted_fields:
  "meta_at evicted_corrupted_world hello_hash = Some (MetaVal hello_meta)"
  "map_of (cache evicted_corrupted_world) hello_hash = None"
  "contentPath evicted_corrupted_world hello_hash = hello_blob_path"
  "fs evicted_corrupted_world hello_blob_path
     = Some \<lparr>fdata = ''hellp'', fmode = 420, fmodTime = 2\<rparr>"
proof -
  define s where "s = stored_world\<lparr>cacheSize := 1, fs := fs corrupted_world\<rparr>"
  let ?h = "hashContent demo_sha ''hellp''"
  have ne: "?h \<noteq> hello_hash" by (rule hellp_neq_hello)
  have f: "db s = [(metaKey hello_hash, MetaVal hello_meta)]" "cache s = [(hello_hash, ''hello'')]"
    "writeFails s = {}" "cacheSize s = 1" "safeRoot s = ''/repo/.tig/content''"
    "fs s = fs corrupted_world"
    by (simp_all add: s_def stored_world_def)
  have m: "meta_at s hello_hash = Some (MetaVal hello_meta)" "meta_at s ?h = None"
    using ne by (simp_all add: meta_at_def f)
  have cp: "contentPath s hello_hash = hello_blob_path"
    by (simp add: contentPath_expand hello_hash_valid f hello_blob_path_def)
  have pne: "contentPath s ?h \<noteq> hello_blob_path"
  proof
    assume "contentPath s ?h = hello_blob_path"
    with cp have "contentPath s ?h = contentPath s hello_hash" by (simp only:)
    with isValidHash_hashContent hello_hash_valid(1) have "?h = hello_hash"
      by (rule contentPath_inj)
    with ne show False by simp
  qed
  have st: "snd (Store demo_sha ''hellp'' s) =
      (storeMeta \<lparr>Hash = ?h, Size = int (length ''hellp''), RefCount = 1,
                 Compressed = False, CreatedAt = now s, AccessedAt = now s\<rparr>
         (os_WriteFile (contentPath s ?h) ''hellp'' s))
       \<lparr>cache := cache_Add (cacheSize s) ?h ''hellp'' (cache s)\<rparr>"
    using ne m(2) by (subst Store_new) (simp_all add: f)
  have e: "evicted_corrupted_world = snd (Store demo_sha ''hellp'' s)"
    unfolding s_def by (rule evicted_corrupted_unfold)
  show "meta_at evicted_corrupted_world hello_hash = Some (MetaVal hello_meta)"
    unfolding e st using ne by (simp add: m)
  show "map_of (cache evicted_corrupted_world) hello_hash = None"
    unfolding e st using ne by (simp add: cache_Add_def f)
  have "safeRoot evicted_corrupted_world = ''/repo/.tig/content''"
    unfolding e by (simp add: f)
  then show "contentPath evicted_corrupted_world hello_hash = hello_blob_path"
    by (simp add: contentPath_expand hello_hash_valid hello_blob_path_def)
  show "fs evicted_corrupted_world hello_blob_path
     = Some \<lparr>fdata = ''hellp'', fmode = 420, fmodTime = 2\<rparr>"
    unfolding e st using pne
    by (simp add: os_WriteFile_def f corrupted_fields)
qed

lemma corrupted_world_reached:
  "run_events demo_sha [Call (OpStore ''hello''), Damage (fs corrupted_world)] file_world
     = corrupted_world"
  by (simp add: Store_hello corrupted_world_def)

section \<open>The rollback of a batch\<close>

lemma Store_success_state:
  assumes "Store sha x t = (Inr h, t')"
  shows "h = hashContent sha x \<and>
     ((\<exists>m. meta_at t h = Some (MetaVal m) \<and> t' = storeMeta (m\<lparr>RefCount := RefCount m + 1\<rparr>) t) \<or>
      (meta_at t h = None \<and>
       t' = (storeMeta \<lparr>Hash = h, Size = int (length x), RefCount = 1,
                 Compressed = False, CreatedAt = now t, AccessedAt = now t\<rparr>
               (os_WriteFile (contentPath t h) x t))
             \<lparr>cache := cache_Add (cacheSize t) h x (cache t)\<rparr>))"
proof -
  have h: "h = hashContent sha x" using assms by (rule Store_Inr_hash)
  show ?thesis
  proof (cases "meta_at t h")
    case None
    with assms h show ?thesis
      by (auto simp: Store_def Let_def Exists_def incrementRefCount_def getMeta_def meta_at_def
          storeMeta_def os_WriteFile_def split: if_splits)
  next
    case (Some v)
    show ?thesis
    proof (cases v)
      case (MetaVal m)
      with Some assms h show ?thesis
        by (simp add: Store_existing)
    qed (use Some assms h in \<open>auto simp: Store_def Let_def Exists_def incrementRefCount_def
          getMeta_def meta_at_def split: if_splits\<close>)
  qed
qed

lemma Store_effect:
  assumes "Store sha x t = (Inr h, t')"
    and "\<forall>m. meta_at t h = Some (MetaVal m) \<longrightarrow> Hash m = h"
  shows "h = hashContent sha x"
    and "\<And>h'. h' \<noteq> h \<Longrightarrow> meta_at t' h' = meta_at t h'"
    and "\<And>p. p \<noteq> contentPath t h \<Longrightarrow> fs t' p = fs t p"
    and "(\<exists>m. meta_at t h = Some (MetaVal m) \<and>
              meta_at t' h = Some (MetaVal (m\<lparr>RefCount := RefCount m + 1\<rparr>)) \<and> fs t' = fs t) \<or>
         (meta_at t h = None \<and>
            (\<exists>m'. meta_at t' h = Some (MetaVal m') \<and> Hash m' = h \<and> RefCount m' = 1))"
proof -
  note hc = Store_success_state [OF assms(1)]
  from hc have h: "h = hashContent sha x" by (rule conjunct1)
  from hc have c: "(\<exists>m. meta_at t h = Some (MetaVal m) \<and> t' = storeMeta (m\<lparr>RefCount := RefCount m + 1\<rparr>) t) \<or>
      (meta_at t h = None \<and>
       t' = (storeMeta \<lparr>Hash = h, Size = int (length x), RefCount = 1,
                 Compressed = False, CreatedAt = now t, AccessedAt = now t\<rparr>
               (os_WriteFile (contentPath t h) x t))
             \<lparr>cache := cache_Add (cacheSize t) h x (cache t)\<rparr>)"
    by (rule conjunct2)
  show "h = hashContent sha x" by (rule h)
  from c show "\<And>h'. h' \<noteq> h \<Longrightarrow> meta_at t' h' = meta_at t h'"
    using assms(2) by (auto simp: os_WriteFile_def meta_at_def storeMeta_def map_of_update)
  from c show "\<And>p. p \<noteq> contentPath t h \<Longrightarrow> fs t' p = fs t p"
    by (auto simp: os_WriteFile_def)
  from c show "(\<exists>m. meta_at t h = Some (MetaVal m) \<and>
              meta_at t' h = Some (MetaVal (m\<lparr>RefCount := RefCount m + 1\<rparr>)) \<and> fs t' = fs t) \<or>
         (meta_at t h = None \<and>
            (\<exists>m'. meta_at t' h = Some (MetaVal m') \<and> Hash m' = h \<and> RefCount m' = 1))"
    using assms(2) by (auto simp: os_WriteFile_def meta_at_def storeMeta_def map_of_update)
qed

lemma Delete_db_other:
  "(\<And>h'. k \<noteq> metaKey h') \<Longrightarrow> map_of (db (snd (Delete h t))) k = map_of (db t) k"
  using Delete_state [of h t]
  by (auto simp: storeMeta_def map_of_update map_of_delete)

lemma Delete_effect:
  assumes "isValidHash h" and "meta_at t h = Some (MetaVal m)" and "Hash m = h"
  shows "\<And>h'. h' \<noteq> h \<Longrightarrow> meta_at (snd (Delete h t)) h' = meta_at t h'"
    and "\<And>p. p \<noteq> contentPath t h \<Longrightarrow> fs (snd (Delete h t)) p = fs t p"
    and "RefCount m - 1 \<noteq> 0 \<Longrightarrow>
           meta_at (snd (Delete h t)) h = Some (MetaVal (m\<lparr>RefCount := RefCount m - 1\<rparr>)) \<and>
           fs (snd (Delete h t)) = fs t"
    and "RefCount m - 1 = 0 \<Longrightarrow>
           meta_at (snd (Delete h t)) h = None \<and> fs (snd (Delete h t)) (contentPath t h) = None"
  using assms
  by (auto simp: Delete_def Let_def getMeta_def meta_at_def deleteMeta_def storeMeta_def
      map_of_update map_of_delete)


lemma slot_extra_cong:
  "slot_extra s t h n \<Longrightarrow> meta_at t' h = meta_at t h \<Longrightarrow>
   fs t' (contentPath s h) = fs t (contentPath s h) \<Longrightarrow> slot_extra s t' h n"
  by (simp add: slot_extra_def)

lemma slot_extra_Hash:
  "keys_ok s \<Longrightarrow> slot_extra s t h n \<Longrightarrow> meta_at t h = Some (MetaVal m) \<Longrightarrow> Hash m = h"
  by (auto simp: slot_extra_def keys_ok_def)

lemma slot_extra_Store:
  assumes "slot_extra s t h n"
    and "(\<exists>m. meta_at t h = Some (MetaVal m) \<and>
              meta_at t' h = Some (MetaVal (m\<lparr>RefCount := RefCount m + 1\<rparr>)) \<and> fs t' = fs t) \<or>
         (meta_at t h = None \<and>
            (\<exists>m'. meta_at t' h = Some (MetaVal m') \<and> Hash m' = h \<and> RefCount m' = 1))"
  shows "slot_extra s t' h (Suc n)"
  using assms(2)
proof (elim disjE exE conjE)
  fix mt
  assume mt: "meta_at t h = Some (MetaVal mt)"
    and mt': "meta_at t' h = Some (MetaVal (mt\<lparr>RefCount := RefCount mt + 1\<rparr>))"
    and f: "fs t' = fs t"
  from assms(1) mt consider
    (old) m where "meta_at s h = Some (MetaVal m)" "mt = m\<lparr>RefCount := RefCount m + of_nat n\<rparr>"
      "fs t (contentPath s h) = fs s (contentPath s h)"
    | (new) "meta_at s h = None" "0 < n" "Hash mt = h" "RefCount mt = of_nat n"
    | (same) "n = 0" "meta_at s h = Some (MetaVal mt)" "fs t (contentPath s h) = fs s (contentPath s h)"
    unfolding slot_extra_def by (elim disjE exE conjE) simp_all
  then show ?thesis
  proof cases
    case old
    then show ?thesis using mt' f by (simp add: slot_extra_def add.assoc)
  next
    case new
    then show ?thesis using mt' by (simp add: slot_extra_def)
  next
    case same
    then show ?thesis using mt' f by (simp add: slot_extra_def)
  qed
next
  fix m'
  assume "meta_at t h = None" and "meta_at t' h = Some (MetaVal m')" and "Hash m' = h"
    and "RefCount m' = 1"
  with assms(1) show ?thesis by (auto simp: slot_extra_def)
qed

lemma word32_add_nonzero:
  assumes "1 \<le> unat (r :: 32 word)" and "unat r + n < 2 ^ 32"
  shows "r + of_nat n \<noteq> 0"
proof -
  have "r + of_nat n = of_nat (unat r + n)" by simp
  moreover from assms have "(of_nat (unat r + n) :: 32 word) \<noteq> 0"
    by (intro word32_of_nat_nonzero) simp_all
  ultimately show ?thesis by simp
qed

lemma slot_extra_Delete:
  assumes "slot_extra s t h (Suc n)" and "keys_ok s" and "isValidHash h"
    and "\<And>m. meta_at s h = Some (MetaVal m) \<Longrightarrow>
           1 \<le> unat (RefCount m) \<and> unat (RefCount m) + Suc n < 2 ^ 32"
    and "Suc n < 2 ^ 32"
    and "meta_at s h = None \<Longrightarrow> fs s (contentPath s h) = None"
    and "contentPath t h = contentPath s h"
  shows "slot_extra s (snd (Delete h t)) h n"
proof -
  from assms(1) consider
    (old) m where "meta_at s h = Some (MetaVal m)"
      "meta_at t h = Some (MetaVal (m\<lparr>RefCount := RefCount m + of_nat (Suc n)\<rparr>))"
      "fs t (contentPath s h) = fs s (contentPath s h)"
    | (new) m' where "meta_at s h = None" "meta_at t h = Some (MetaVal m')" "Hash m' = h"
      "RefCount m' = of_nat (Suc n)"
    by (auto simp: slot_extra_def)
  then show ?thesis
  proof cases
    case old
    let ?mt = "m\<lparr>RefCount := RefCount m + of_nat (Suc n)\<rparr>"
    from assms(2) old(1) have hm: "Hash ?mt = h" by (simp add: keys_ok_def)
    from assms(4) [OF old(1)] have "RefCount m + of_nat n \<noteq> 0"
      by (intro word32_add_nonzero) simp_all
    then have nz: "RefCount ?mt - 1 \<noteq> 0" by simp
    from Delete_effect(3) [OF assms(3) old(2) hm nz] old(1,3) show ?thesis
      by (simp add: slot_extra_def)
  next
    case new
    show ?thesis
    proof (cases "n = 0")
      case True
      with new(4) have "RefCount m' - 1 = 0" by simp
      from Delete_effect(4) [OF assms(3) new(2,3) this] True new(1) assms(6,7)
      show ?thesis by (simp add: slot_extra_def)
    next
      case False
      with assms(5) have "(of_nat n :: 32 word) \<noteq> 0"
        by (intro word32_of_nat_nonzero) simp_all
      with new(4) have nz: "RefCount m' - 1 \<noteq> 0" by simp
      from Delete_effect(3) [OF assms(3) new(2,3) nz] new(1,3,4) False show ?thesis
        by (simp add: slot_extra_def)
    qed
  qed
qed


lemma contentPath_neq:
  "isValidHash h \<Longrightarrow> isValidHash h' \<Longrightarrow> h' \<noteq> h \<Longrightarrow> contentPath s h' \<noteq> contentPath s h"
  using contentPath_inj [of h' h s] by blast

lemma extra_Store:
  assumes k: "keys_ok s" and e: "extra s t c" and st: "Store sha x t = (Inr h, t')"
  shows "extra s t' (c(h := Suc (c h)))"
proof -
  from e have root: "safeRoot t = safeRoot s"
    and keys: "\<And>k. (\<And>h. k \<noteq> metaKey h) \<Longrightarrow> map_of (db t) k = map_of (db s) k"
    and files: "\<And>p. (\<And>h. isValidHash h \<Longrightarrow> p \<noteq> contentPath s h) \<Longrightarrow> fs t p = fs s p"
    and inval: "\<And>h. \<not> isValidHash h \<Longrightarrow> meta_at t h = meta_at s h"
    and slots: "\<And>h. isValidHash h \<Longrightarrow> slot_extra s t h (c h)"
    by (simp_all add: extra_def)
  from st have hx: "h = hashContent sha x" by (rule Store_Inr_hash)
  then have v: "isValidHash h" by (simp add: isValidHash_hashContent)
  have hm: "\<forall>m. meta_at t h = Some (MetaVal m) \<longrightarrow> Hash m = h"
    using k slots [OF v] by (blast intro: slot_extra_Hash)
  note eff = Store_effect [OF st hm]
  from root have cp: "\<And>h. contentPath t h = contentPath s h" by (rule contentPath_cong)
  have "safeRoot t' = safeRoot s"
    using safeRoot_Store [of sha x t] st root by simp
  moreover have "map_of (db t') k = map_of (db s) k" if "\<And>h. k \<noteq> metaKey h" for k
    using Store_db_other [OF st that] keys [OF that] by simp
  moreover have "fs t' p = fs s p" if "\<And>h. isValidHash h \<Longrightarrow> p \<noteq> contentPath s h" for p
  proof -
    from that [OF v] have "p \<noteq> contentPath t h" by (simp add: cp)
    from eff(3) [OF this] files [OF that] show ?thesis by simp
  qed
  moreover have "meta_at t' h' = meta_at s h'" if "\<not> isValidHash h'" for h'
  proof -
    from that v have "h' \<noteq> h" by auto
    from eff(2) [OF this] inval [OF that] show ?thesis by simp
  qed
  moreover have "slot_extra s t' h' ((c(h := Suc (c h))) h')" if v': "isValidHash h'" for h'
  proof (cases "h' = h")
    case True
    from slots [OF v] eff(4) have "slot_extra s t' h (Suc (c h))" by (rule slot_extra_Store)
    with True show ?thesis by simp
  next
    case False
    from v v' False have "contentPath s h' \<noteq> contentPath t h"
      unfolding cp by (rule contentPath_neq)
    from slots [OF v'] eff(2) [OF False] eff(3) [OF this]
    have "slot_extra s t' h' (c h')" by (rule slot_extra_cong)
    with False show ?thesis by simp
  qed
  ultimately show ?thesis unfolding extra_def by blast
qed

lemma extra_Delete:
  assumes r: "batch_ready b s" and e: "extra s t c" and v: "isValidHash h"
    and pos: "0 < c h" and le: "c h \<le> b"
  shows "extra s (snd (Delete h t)) (c(h := c h - 1))"
proof -
  let ?t' = "snd (Delete h t)"
  from e have root: "safeRoot t = safeRoot s"
    and keys: "\<And>k. (\<And>h. k \<noteq> metaKey h) \<Longrightarrow> map_of (db t) k = map_of (db s) k"
    and files: "\<And>p. (\<And>h. isValidHash h \<Longrightarrow> p \<noteq> contentPath s h) \<Longrightarrow> fs t p = fs s p"
    and inval: "\<And>h. \<not> isValidHash h \<Longrightarrow> meta_at t h = meta_at s h"
    and slots: "\<And>h. isValidHash h \<Longrightarrow> slot_extra s t h (c h)"
    by (simp_all add: extra_def)
  from r have k: "keys_ok s" and b: "b < 2 ^ 32"
    and orph: "\<And>h. isValidHash h \<Longrightarrow> meta_at s h = None \<Longrightarrow> fs s (contentPath s h) = None"
    and refs: "\<And>h m. meta_at s h = Some (MetaVal m) \<Longrightarrow>
                 1 \<le> unat (RefCount m) \<and> unat (RefCount m) + b < 2 ^ 32"
    by (simp_all add: batch_ready_def orphan_free_def)
  from pos obtain n where n: "c h = Suc n" by (cases "c h") auto
  from root have cp: "\<And>h. contentPath t h = contentPath s h" by (rule contentPath_cong)
  from slots [OF v] n have sl: "slot_extra s t h (Suc n)" by simp
  then obtain mt where mt: "meta_at t h = Some (MetaVal mt)"
    by (auto simp: slot_extra_def)
  from k sl mt have hm: "Hash mt = h" by (rule slot_extra_Hash)
  note eff = Delete_effect [OF v mt hm]
  have "safeRoot ?t' = safeRoot s" using root by simp
  moreover have "map_of (db ?t') k = map_of (db s) k" if "\<And>h. k \<noteq> metaKey h" for k
    using Delete_db_other [of k h t, OF that] keys [OF that] by simp
  moreover have "fs ?t' p = fs s p" if "\<And>h. isValidHash h \<Longrightarrow> p \<noteq> contentPath s h" for p
  proof -
    from that [OF v] have "p \<noteq> contentPath t h" by (simp add: cp)
    from eff(2) [OF this] files [OF that] show ?thesis by simp
  qed
  moreover have "meta_at ?t' h' = meta_at s h'" if "\<not> isValidHash h'" for h'
  proof -
    from that v have "h' \<noteq> h" by auto
    from eff(1) [OF this] inval [OF that] show ?thesis by simp
  qed
  moreover have "slot_extra s ?t' h' ((c(h := c h - 1)) h')" if v': "isValidHash h'" for h'
  proof (cases "h' = h")
    case True
    have "slot_extra s ?t' h n"
    proof (rule slot_extra_Delete [OF sl k v])
      fix m
      assume "meta_at s h = Some (MetaVal m)"
      from refs [OF this] le n
      show "1 \<le> unat (RefCount m) \<and> unat (RefCount m) + Suc n < 2 ^ 32" by simp
    next
      from le n b show "Suc n < 2 ^ 32" by simp
    next
      assume "meta_at s h = None"
      with v show "fs s (contentPath s h) = None" by (rule orph)
    next
      show "contentPath t h = contentPath s h" by (rule cp)
    qed
    with True n show ?thesis by simp
  next
    case False
    from v v' False have "contentPath s h' \<noteq> contentPath t h"
      unfolding cp by (rule contentPath_neq)
    from slots [OF v'] eff(1) [OF False] eff(2) [OF this]
    have "slot_extra s ?t' h' (c h')" by (rule slot_extra_cong)
    with False show ?thesis by simp
  qed
  ultimately show ?thesis unfolding extra_def by blast
qed

lemma extra_refl: "extra s s (\<lambda>h. 0)"
  by (auto simp: extra_def slot_extra_def)

lemma extra_zero:
  assumes "extra s t (\<lambda>h. 0)"
  shows "(\<forall>k. map_of (db t) k = map_of (db s) k) \<and> fs t = fs s"
proof -
  from assms have keys: "\<And>k. (\<And>h. k \<noteq> metaKey h) \<Longrightarrow> map_of (db t) k = map_of (db s) k"
    and files: "\<And>p. (\<And>h. isValidHash h \<Longrightarrow> p \<noteq> contentPath s h) \<Longrightarrow> fs t p = fs s p"
    and inval: "\<And>h. \<not> isValidHash h \<Longrightarrow> meta_at t h = meta_at s h"
    and slots: "\<And>h. isValidHash h \<Longrightarrow> slot_extra s t h 0"
    by (simp_all add: extra_def)
  have sl: "meta_at t h = meta_at s h \<and> fs t (contentPath s h) = fs s (contentPath s h)"
    if "isValidHash h" for h
    using slots [OF that] by (auto simp: slot_extra_def)
  have "map_of (db t) k = map_of (db s) k" for k
  proof (cases "\<exists>h. k = metaKey h")
    case True
    then obtain h where h: "k = metaKey h" ..
    have "meta_at t h = meta_at s h"
      by (cases "isValidHash h") (simp_all add: sl inval)
    with h show ?thesis by (simp add: meta_at_def)
  next
    case False
    then show ?thesis by (intro keys) blast
  qed
  moreover have "fs t p = fs s p" for p
  proof (cases "\<exists>h. isValidHash h \<and> p = contentPath s h")
    case True
    then show ?thesis using sl by auto
  next
    case False
    then show ?thesis by (intro files) blast
  qed
  ultimately show ?thesis by (simp add: fun_eq_iff)
qed


lemma rollback_extra:
  assumes "batch_ready b s"
  shows "extra s t (count_list hs) \<Longrightarrow> \<forall>h\<in>set hs. isValidHash h \<Longrightarrow> length hs \<le> b \<Longrightarrow>
         extra s (rollback hs t) (\<lambda>h. 0)"
proof (induction hs arbitrary: t)
  case Nil
  then show ?case by simp
next
  case (Cons h hs)
  have le: "count_list (h # hs) h \<le> length (h # hs)" by (rule count_le_length)
  from Cons.prems have v: "isValidHash h" by simp
  have "extra s (snd (Delete h t)) ((count_list (h # hs))(h := count_list (h # hs) h - 1))"
    using assms Cons.prems(1) v
  proof (rule extra_Delete)
    show "0 < count_list (h # hs) h" by simp
    from le Cons.prems(3) show "count_list (h # hs) h \<le> b" by simp
  qed
  moreover have "(count_list (h # hs))(h := count_list (h # hs) h - 1) = count_list hs"
    by (auto simp: fun_eq_iff)
  ultimately have "extra s (snd (Delete h t)) (count_list hs)" by simp
  moreover from Cons.prems have "\<forall>h\<in>set hs. isValidHash h" "length hs \<le> b" by simp_all
  ultimately have "extra s (rollback hs (snd (Delete h t))) (\<lambda>h. 0)" by (rule Cons.IH)
  then show ?case by simp
qed

lemma storeBatch_loop_extra:
  assumes "batch_ready b s"
  shows "extra s t (count_list hashes) \<Longrightarrow> \<forall>h\<in>set hashes. isValidHash h \<Longrightarrow>
         length hashes + length cs \<le> b \<Longrightarrow>
         (case storeBatch_loop sha cs hashes t of
            (Inr hs', t') \<Rightarrow> hs' = hashes @ map (hashContent sha) cs
          | (Inl e, t') \<Rightarrow> (\<exists>e0. e = Wrap ''storing content'' e0) \<and>
              (\<forall>k. map_of (db t') k = map_of (db s) k) \<and> fs t' = fs s)"
proof (induction cs arbitrary: hashes t)
  case Nil
  then show ?case by simp
next
  case (Cons c cs)
  from assms have k: "keys_ok s" by (simp add: batch_ready_def)
  obtain r t1 where st: "Store sha c t = (r, t1)" by (cases "Store sha c t")
  show ?case
  proof (cases r)
    case (Inl e)
    with st have "t1 = t" by (auto dest: Store_fail_unchanged)
    moreover from Cons.prems have "length hashes \<le> b" by simp
    with assms Cons.prems(1,2) have "extra s (rollback hashes t) (\<lambda>h. 0)"
      by (rule rollback_extra)
    then have "(\<forall>k. map_of (db (rollback hashes t)) k = map_of (db s) k) \<and>
               fs (rollback hashes t) = fs s"
      by (rule extra_zero)
    ultimately show ?thesis using st Inl by simp
  next
    case (Inr h)
    with st have st': "Store sha c t = (Inr h, t1)" by simp
    then have hx: "h = hashContent sha c" by (rule Store_Inr_hash)
    from k Cons.prems(1) st' have "extra s t1 ((count_list hashes)(h := Suc (count_list hashes h)))"
      by (rule extra_Store)
    moreover have "(count_list hashes)(h := Suc (count_list hashes h)) = count_list (hashes @ [h])"
      by (auto simp: fun_eq_iff)
    ultimately have e: "extra s t1 (count_list (hashes @ [h]))" by simp
    from Cons.prems(2) hx have v: "\<forall>x\<in>set (hashes @ [h]). isValidHash x"
      by (simp add: isValidHash_hashContent)
    from Cons.prems(3) have l: "length (hashes @ [h]) + length cs \<le> b" by simp
    from Cons.IH [OF e v l] st' hx show ?thesis
      by (auto split: prod.splits sum.splits)
  qed
qed

lemma StoreBatch_core:
  assumes "batch_ready (length cs) s"
  shows "case StoreBatch sha cs s of
           (Inr hs, s') \<Rightarrow> hs = map (hashContent sha) cs
         | (Inl e, s') \<Rightarrow> (\<exists>e0. e = Wrap ''storing content'' e0) \<and>
             (\<forall>k. map_of (db s') k = map_of (db s) k) \<and> fs s' = fs s"
proof -
  have "count_list [] = (\<lambda>h :: string. 0 :: nat)" by (simp add: fun_eq_iff)
  with extra_refl [of s] have "extra s s (count_list [])" by simp
  from storeBatch_loop_extra [OF assms this, of cs sha] show ?thesis
    by (auto simp: StoreBatch_def split: prod.splits sum.splits)
qed


lemma keys_ok_run_ops: "keys_ok s \<Longrightarrow> keys_ok (run_ops sha ops s)"
proof (induction ops arbitrary: s)
  case Nil
  then show ?case by simp
next
  case (Cons op ops)
  from Cons.prems have "keys_ok (apply_op sha op s)"
    by (cases op) (simp_all add: keys_ok_Store keys_ok_Get keys_ok_Delete)
  then show ?case by (simp add: Cons.IH)
qed

lemma orphan_free_Store:
  assumes k: "keys_ok s" and o: "orphan_free s"
  shows "orphan_free (snd (Store sha c s))"
proof -
  obtain r t where st: "Store sha c s = (r, t)" by (cases "Store sha c s")
  show ?thesis
  proof (cases r)
    case (Inl e)
    with st have "t = s" by (auto dest: Store_fail_unchanged)
    with st o show ?thesis by simp
  next
    case (Inr h)
    with st have st': "Store sha c s = (Inr h, t)" by simp
    then have "h = hashContent sha c" by (rule Store_Inr_hash)
    then have v: "isValidHash h" by (simp add: isValidHash_hashContent)
    from k have "\<forall>m. meta_at s h = Some (MetaVal m) \<longrightarrow> Hash m = h" by (simp add: keys_ok_def)
    note eff = Store_effect [OF st' this]
    have root: "safeRoot t = safeRoot s" using safeRoot_Store [of sha c s] st by simp
    then have cp: "\<And>h. contentPath t h = contentPath s h" by (rule contentPath_cong)
    have "fs t (contentPath t h') = None" if v': "isValidHash h'" and n: "meta_at t h' = None" for h'
    proof -
      from eff(4) n have ne: "h' \<noteq> h" by auto
      with eff(2) n have "meta_at s h' = None" by simp
      with o v' have "fs s (contentPath s h') = None" by (simp add: orphan_free_def)
      moreover from v v' ne have "contentPath s h' \<noteq> contentPath s h" by (rule contentPath_neq)
      ultimately show ?thesis using eff(3) by (simp add: cp)
    qed
    with st show ?thesis by (simp add: orphan_free_def)
  qed
qed

lemma orphan_free_Get:
  assumes k: "keys_ok s" and o: "orphan_free s"
  shows "orphan_free (snd (Get sha h s))"
  using Get_state [of sha h s]
proof (elim disjE exE conjE)
  assume "snd (Get sha h s) = s"
  with o show ?thesis by simp
next
  fix v
  assume "snd (Get sha h s) = s\<lparr>cache := (h, v) # AList.delete h (cache s)\<rparr>"
  with o show ?thesis by (simp add: orphan_free_def)
next
  fix m and f :: osfile
  assume m: "meta_at s h = Some (MetaVal m)"
    and e: "snd (Get sha h s) =
          storeMeta (m\<lparr>AccessedAt := now s\<rparr>)
            (s\<lparr>cache := cache_Add (cacheSize s) h (fdata f) (cache s)\<rparr>)"
  from k m have "Hash m = h" by (simp add: keys_ok_def)
  with o m show ?thesis unfolding e by (auto simp: orphan_free_def split: if_splits)
qed

lemma orphan_free_Delete:
  assumes k: "keys_ok s" and o: "orphan_free s"
  shows "orphan_free (snd (Delete h s))"
  using Delete_state [of h s]
proof (elim disjE exE conjE)
  assume "snd (Delete h s) = s"
  with o show ?thesis by simp
next
  fix m
  assume "snd (Delete h s) =
         s\<lparr>fs := (fs s)(contentPath s h := None), db := AList.delete (metaKey h) (db s),
            cache := cache_Remove h (cache s)\<rparr>"
  with o show ?thesis
    by (auto simp: orphan_free_def meta_at_def map_of_delete contentPath_def split: if_splits)
next
  fix m
  assume m: "meta_at s h = Some (MetaVal m)"
    and e: "snd (Delete h s) = storeMeta (m\<lparr>RefCount := RefCount m - 1\<rparr>) s"
  from k m have "Hash m = h" by (simp add: keys_ok_def)
  with o m show ?thesis unfolding e by (auto simp: orphan_free_def split: if_splits)
qed

lemma orphan_free_run_ops:
  "keys_ok s \<Longrightarrow> orphan_free s \<Longrightarrow> orphan_free (run_ops sha ops s)"
proof (induction ops arbitrary: s)
  case Nil
  then show ?case by simp
next
  case (Cons op ops)
  from Cons.prems have "keys_ok (apply_op sha op s)"
    by (cases op) (simp_all add: keys_ok_Store keys_ok_Get keys_ok_Delete)
  moreover from Cons.prems have "orphan_free (apply_op sha op s)"
    by (cases op) (simp_all add: orphan_free_Store orphan_free_Get orphan_free_Delete)
  ultimately show ?case by (simp add: Cons.IH)
qed

lemma batch_ready_run_ops:
  assumes "db s0 = []" and "\<forall>h. isValidHash h \<longrightarrow> fs s0 (contentPath s0 h) = None"
    and "count_stores ops + n < 2 ^ 32"
  shows "batch_ready n (run_ops sha ops s0)"
proof -
  from assms(1) have "keys_ok s0" by (simp add: keys_ok_def meta_at_def)
  moreover from assms(2) have "orphan_free s0" by (simp add: orphan_free_def)
  ultimately have k: "keys_ok (run_ops sha ops s0)" and o: "orphan_free (run_ops sha ops s0)"
    by (simp_all add: keys_ok_run_ops orphan_free_run_ops)
  from assms(1) have "refs_ok 0 s0" by (simp add: refs_ok_def)
  moreover from assms(3) have "0 + count_stores ops < 2 ^ 32" by simp
  ultimately have "refs_ok (0 + count_stores ops) (run_ops sha ops s0)"
    by (rule refs_ok_run_ops)
  then have "\<forall>h m. meta_at (run_ops sha ops s0) h = Some (MetaVal m) \<longrightarrow>
      1 \<le> unat (RefCount m) \<and> unat (RefCount m) + n < 2 ^ 32"
    using assms(3) by (fastforce simp: refs_ok_def meta_at_def)
  with k o assms(3) show ?thesis by (simp add: batch_ready_def)
qed

lemma Store_existing_frame:
  assumes "has_refs (hashContent sha b) r s"
  shows "fst (Store sha b s) = Inr (hashContent sha b)"
    and "has_refs (hashContent sha b) (r + 1) (snd (Store sha b s))"
    and "cache (snd (Store sha b s)) = cache s"
    and "\<And>g. g \<noteq> hashContent sha b \<Longrightarrow> meta_at (snd (Store sha b s)) g = meta_at s g"
proof -
  from assms obtain m where m: "meta_at s (hashContent sha b) = Some (MetaVal m)"
      "Hash m = hashContent sha b" "RefCount m = r"
    by (auto simp: has_refs_def)
  note st = Store_existing [OF m(1)]
  from has_refs_Store [OF assms] show "fst (Store sha b s) = Inr (hashContent sha b)"
    and "has_refs (hashContent sha b) (r + 1) (snd (Store sha b s))" by simp_all
  show "cache (snd (Store sha b s)) = cache s" by (simp add: st)
  show "\<And>g. g \<noteq> hashContent sha b \<Longrightarrow> meta_at (snd (Store sha b s)) g = meta_at s g"
    by (simp add: st m(2))
qed

lemma Store_write_fails:
  assumes "meta_at s (hashContent sha c) = None" and "map_of (cache s) (hashContent sha c) = None"
    and "contentPath s (hashContent sha c) \<in> writeFails s"
  shows "Store sha c s = (Inl (Wrap ''writing content file'' ErrWriteFile), s)"
  using assms by (simp add: Store_def Exists_absent isValidHash_hashContent)

lemma Delete_absent: "meta_at s h = None \<Longrightarrow> snd (Delete h s) = s"
  by (simp add: Delete_def getMeta_def meta_at_def)

lemma rollback_replicate: "rollback (hs @ replicate n h) s = delete_n h n (rollback hs s)"
proof (induction hs arbitrary: s)
  case Nil
  show ?case by (induction n arbitrary: s) simp_all
next
  case (Cons a hs)
  then show ?case by simp
qed

lemma storeBatch_loop_fails:
  assumes "hashContent sha c \<noteq> hashContent sha b"
  shows "has_refs (hashContent sha b) r s \<Longrightarrow> meta_at s (hashContent sha c) = None \<Longrightarrow>
         map_of (cache s) (hashContent sha c) = None \<Longrightarrow>
         contentPath s (hashContent sha c) \<in> writeFails s \<Longrightarrow>
         storeBatch_loop sha (replicate n b @ [c]) hashes s =
           (Inl (Wrap ''storing content'' (Wrap ''writing content file'' ErrWriteFile)),
            rollback (hashes @ replicate n (hashContent sha b)) (store_n sha b n s))"
proof (induction n arbitrary: hashes s r)
  case 0
  then show ?case by (simp add: Store_write_fails)
next
  case (Suc n)
  obtain r0 s' where st0: "Store sha b s = (r0, s')" by (cases "Store sha b s")
  note f = Store_existing_frame [OF Suc.prems(1), unfolded st0 fst_conv snd_conv]
  from st0 f(1) have st: "Store sha b s = (Inr (hashContent sha b), s')" by simp
  have "safeRoot s' = safeRoot s" "writeFails s' = writeFails s"
    using safeRoot_Store [of sha b s] writeFails_Store [of sha b s] by (simp_all add: st0)
  then have "contentPath s' (hashContent sha c) = contentPath s (hashContent sha c)"
    and "writeFails s' = writeFails s"
    by (simp_all add: contentPath_def)
  with Suc.prems(4) have w: "contentPath s' (hashContent sha c) \<in> writeFails s'" by simp
  from Suc.prems(2) assms have m: "meta_at s' (hashContent sha c) = None" by (simp add: f(4))
  from Suc.prems(3) have c: "map_of (cache s') (hashContent sha c) = None" by (simp add: f(3))
  from Suc.IH [OF f(2) m c w, of "hashes @ [hashContent sha b]"]
  have "storeBatch_loop sha (replicate n b @ [c]) (hashes @ [hashContent sha b]) s' =
    (Inl (Wrap ''storing content'' (Wrap ''writing content file'' ErrWriteFile)),
     rollback (hashes @ replicate (Suc n) (hashContent sha b)) (store_n sha b n s'))"
    by simp
  moreover have "storeBatch_loop sha (replicate (Suc n) b @ [c]) hashes s =
     storeBatch_loop sha (replicate n b @ [c]) (hashes @ [hashContent sha b]) s'"
    by (simp add: st)
  moreover have "store_n sha b (Suc n) s = store_n sha b n s'"
    by (simp add: st)
  ultimately show ?case by (simp only:)
qed


lemma store_n_add: "store_n sha b j (store_n sha b n s) = store_n sha b (n + j) s"
  by (induction n arbitrary: s) simp_all

lemma writeFails_store_n [simp]: "writeFails (store_n sha b n s) = writeFails s"
  by (induction n arbitrary: s) simp_all

lemma store_n_existing_frame:
  "has_refs (hashContent sha b) r s \<Longrightarrow>
   cache (store_n sha b n s) = cache s \<and>
   (\<forall>g. g \<noteq> hashContent sha b \<longrightarrow> meta_at (store_n sha b n s) g = meta_at s g)"
proof (induction n arbitrary: r s)
  case 0
  then show ?case by simp
next
  case (Suc n)
  note f = Store_existing_frame [OF Suc.prems]
  from Suc.IH [OF f(2)] f(3,4) show ?case by simp
qed

lemma store_n_fresh_frame:
  assumes "meta_at s (hashContent sha b) = None" and "map_of (cache s) (hashContent sha b) = None"
    and "contentPath s (hashContent sha b) \<notin> writeFails s"
    and "g \<noteq> hashContent sha b" and "meta_at s g = None" and "map_of (cache s) g = None"
  shows "meta_at (store_n sha b n s) g = None \<and> map_of (cache (store_n sha b n s)) g = None"
proof (cases n)
  case 0
  with assms show ?thesis by simp
next
  case (Suc k)
  let ?s' = "snd (Store sha b s)"
  have m: "meta_at ?s' g = None" using assms(4,5)
    by (simp add: Store_new [OF assms(1-3)] os_WriteFile_def meta_at_def storeMeta_def map_of_update)
  have "map_of (cache ?s') g = Some v \<Longrightarrow> map_of (cache s) g = Some v" for v
    using assms(4) by (auto simp: Store_new [OF assms(1-3)] storeMeta_def os_WriteFile_def
        dest: cache_Add_other)
  with assms(6) have c: "map_of (cache ?s') g = None"
    by (cases "map_of (cache ?s') g") auto
  from store_n_existing_frame [OF Store_fresh(2) [OF assms(1-3)], of k] assms(4) m c Suc
  show ?thesis by simp
qed

lemma failing_world_fields:
  "db failing_world = []" "fs failing_world = Map.empty" "cache failing_world = []"
  "meta_at failing_world h = None"
  "contentPath failing_world h = contentPath empty_world h"
  "writeFails failing_world = {contentPath empty_world (hashContent demo_sha ''hellp'')}"
  by (simp_all add: failing_world_def empty_world_def meta_at_def contentPath_def)

lemma hello_store_n_failing:
  assumes "0 < n"
  shows "has_refs hello_hash (of_nat n) (store_n demo_sha ''hello'' n failing_world)"
    and "meta_at (store_n demo_sha ''hello'' n failing_world) (hashContent demo_sha ''hellp'') = None"
    and "map_of (cache (store_n demo_sha ''hello'' n failing_world)) (hashContent demo_sha ''hellp'') = None"
    and "contentPath (store_n demo_sha ''hello'' n failing_world) (hashContent demo_sha ''hellp'')
           \<in> writeFails (store_n demo_sha ''hello'' n failing_world)"
proof -
  let ?h = "hashContent demo_sha ''hello''" and ?g = "hashContent demo_sha ''hellp''"
  have ne: "?g \<noteq> ?h" using hellp_neq_hello by (simp add: hello_hash_def)
  have "contentPath empty_world ?h \<noteq> contentPath empty_world ?g"
    using ne by (intro contentPath_neq) (simp_all add: isValidHash_hashContent)
  then have fresh: "meta_at failing_world ?h = None" "map_of (cache failing_world) ?h = None"
    "contentPath failing_world ?h \<notin> writeFails failing_world"
    by (simp_all add: failing_world_fields)
  from store_n_fresh [OF fresh assms]
  show "has_refs hello_hash (of_nat n) (store_n demo_sha ''hello'' n failing_world)"
    by (simp add: hello_hash_def)
  from store_n_fresh_frame [OF fresh ne, of n]
  show "meta_at (store_n demo_sha ''hello'' n failing_world) ?g = None"
    and "map_of (cache (store_n demo_sha ''hello'' n failing_world)) ?g = None"
    by (simp_all add: failing_world_fields)
  have "contentPath (store_n demo_sha ''hello'' n failing_world) ?g = contentPath failing_world ?g"
    by (rule contentPath_cong) simp
  then show "contentPath (store_n demo_sha ''hello'' n failing_world) ?g
           \<in> writeFails (store_n demo_sha ''hello'' n failing_world)"
    by (simp add: failing_world_fields)
qed

lemma hello_batch_fails:
  assumes "0 < n"
  shows "StoreBatch demo_sha (replicate j ''hello'' @ [''hellp'']) (store_n demo_sha ''hello'' n failing_world)
     = (Inl (Wrap ''storing content'' (Wrap ''writing content file'' ErrWriteFile)),
        delete_n hello_hash j (store_n demo_sha ''hello'' (n + j) failing_world))"
proof -
  have ne: "hashContent demo_sha ''hellp'' \<noteq> hashContent demo_sha ''hello''"
    using hellp_neq_hello by (simp add: hello_hash_def)
  note f = hello_store_n_failing [OF assms]
  from storeBatch_loop_fails [OF ne f(1) [unfolded hello_hash_def] f(2,3,4), of j "[]"]
  show ?thesis
    using rollback_replicate [of "[]" j hello_hash]
    by (simp add: StoreBatch_def store_n_add hello_hash_def)
qed


lemma refCountOf_cong:
  "map_of (db t) (metaKey h) = map_of (db s) (metaKey h) \<Longrightarrow> refCountOf h t = refCountOf h s"
  by (simp add: refCountOf_def getMeta_def)
section \<open>Claims about the diff engine\<close>

text \<open>
  C6. The claim: diffing \<open>"a\nb\nc\n"\<close> against \<open>"a\nx\nc\n"\<close> with one context line
  gives one hunk holding the deletion of \<open>b\<close> and the addition of \<open>x\<close> between the
  context lines \<open>a\<close> and \<open>c\<close>, with statistics 1, 1, 2.
  What \<open>Diff\<close> computes on this input: the closing test at the end of the loop body of
  \<open>extractHunks\<close> closes the current hunk after every changed line, so the deletion
  and the addition end up in two hunks; \<open>addContextLines\<close> reads \<open>OldStart\<close> as a
  0-based index, so the context line put before each hunk is \<open>b\<close>, and no line follows
  the last hunk. Only the statistics agree with the claim.
\<close>

theorem diff_scenario_splits_hunks:
  "Diff 1 [CHR ''a'', newline, CHR ''b'', newline, CHR ''c'', newline]
          [CHR ''a'', newline, CHR ''x'', newline, CHR ''c'', newline]
   = Inr \<lparr>Hunks =
            [\<lparr>OldStart = 2, OldLines = 1, NewStart = 1, NewLines = 0,
              Lines = [mkLine Context ''b'', mkLine Deletion ''b'']\<rparr>,
             \<lparr>OldStart = 2, OldLines = 0, NewStart = 2, NewLines = 1,
              Lines = [mkLine Context ''b'', mkLine Addition ''x'']\<rparr>],
          DStats = \<lparr>Additions = 1, Deletions = 1, Changes = 2\<rparr>\<rparr>"
  by code_simp

section \<open>Claims about hash validation\<close>

lemma Get_invalid: "\<not> isValidHash h \<Longrightarrow> Get sha h s = (Inl ErrInvalidHash, s)"
  by (simp add: Get_def)

lemma Get_valid_not_InvalidHash: "isValidHash h \<Longrightarrow> fst (Get sha h s) \<noteq> Inl ErrInvalidHash"
  by (simp add: Get_def cache_Get_def Let_def split: option.splits sum.splits)

lemma isValidHash_upper: "isValidHash (replicate 64 CHR ''A'')"
  by (simp add: isValidHash_isHexDigit list_all_iff isHexDigit_def)

text \<open>
  C7, as stated: every string that is not 64 lowercase hexadecimal characters makes
  \<open>Get\<close> fail with \<open>ErrInvalidHash\<close>. It fails for the hash made of 64 letters \<open>A\<close>:
  \<open>hex.DecodeString\<close> accepts upper-case digits, so the hash passes \<open>isValidHash\<close>, the
  cache and the metadata are searched, and on the empty store the error is the wrapped
  \<open>ErrContentNotFound\<close>.
\<close>

theorem Get_uppercase_hash_is_looked_up:
  "fst (Get demo_sha (replicate 64 CHR ''A'') empty_world)
     = Inl (Wrap ''getting metadata'' ErrContentNotFound)"
  using isValidHash_upper
  by (simp add: Get_def cache_Get_def getMeta_def empty_world_def)

text \<open>
  C7, amended: \<open>Get\<close> fails with \<open>ErrInvalidHash\<close> exactly for the strings that are
  not 64 hexadecimal characters, where a hexadecimal character is a digit or a letter
  \<open>a\<close> to \<open>f\<close> of either case. This holds for every digest function and every state.
\<close>

theorem Get_InvalidHash_iff:
  "fst (Get sha h s) = Inl ErrInvalidHash \<longleftrightarrow> \<not> (length h = 64 \<and> list_all isHexDigit h)"
  using Get_invalid [of h sha s] Get_valid_not_InvalidHash [of h sha s]
  unfolding isValidHash_isHexDigit by auto

theorem Get_InvalidHash_iff_witness:
  "fst (Get demo_sha ''abc'' empty_world) = Inl ErrInvalidHash \<and> length ''abc'' \<noteq> (64::nat)"
  using Get_InvalidHash_iff [of demo_sha "''abc''" empty_world] by simp

section \<open>Claims about the workspace\<close>

text \<open>
  C4. The claim: \<open>Ungate([p])\<close> removes \<open>p\<close> from the in-memory gated map and from the
  durable record that \<open>LoadGatedChanges\<close> reads, so the change does not come back after
  a reload.
  What the code does after \<open>Gate(["file.txt"])\<close>: \<open>Ungate\<close> deletes the key
  \<open>gated/file.txt\<close> (\<open>gatedChangePrefix\<close>), while \<open>saveGatedChanges\<close> wrote and
  \<open>LoadGatedChanges\<close> reads \<open>gated:file.txt\<close>. The path leaves the in-memory map, the
  durable record stays, and a reload brings the gated change back.
\<close>

theorem Ungate_leaves_durable_record:
  "map_of (GatedChanges (snd (Ungate [''file.txt''] gated_world))) ''file.txt'' = None \<and>
   map_of (db (snd (Ungate [''file.txt''] gated_world))) ''gated:file.txt'' = Some (ChangeVal hello_change) \<and>
   map_of (GatedChanges (snd (LoadGatedChanges (snd (Ungate [''file.txt''] gated_world))))) ''file.txt''
     = Some hello_change"
  by (simp add: gated_world_fields gatedChangePrefix_def metaKey_def LoadGatedChanges_def
      hasPrefix_def trimPrefix_def)

text \<open>
  C5. The claim: a gated entry whose working file is gone but whose blob still exists at
  the content store's location for its hash is kept by \<open>CleanupGatedChanges\<close>.
  What the code does for the gated \<open>file.txt\<close> once the file is deleted: the store keeps
  the blob at \<open>root/hash[:2]/hash[2:]\<close>, but the cleanup looks for
  \<open>root/hash[:2]/hash\<close> (the whole hash as the file name), finds nothing there, and
  removes the entry although the blob is on disk.
\<close>

theorem Cleanup_drops_entry_with_live_blob:
  "fs blob_only_world ''/repo/file.txt'' = None \<and>
   map_of (GatedChanges blob_only_world) ''file.txt'' = Some hello_change \<and>
   NewHash hello_change = hello_hash \<and>
   map_option fdata (fs blob_only_world (contentPath blob_only_world hello_hash)) = Some ''hello'' \<and>
   map_of (GatedChanges (snd (CleanupGatedChanges blob_only_world))) ''file.txt'' = None"
proof -
  have len: "hello_hash \<noteq> []" "\<not> length hello_hash < 2" "take 2 hello_hash \<noteq> []"
    using hello_hash_valid(2) by auto
  have flds:
    "fs blob_only_world = (fs stored_world)(''/repo/file.txt'' := None)"
    "GatedChanges blob_only_world = [(''file.txt'', hello_change)]"
    "Root blob_only_world = ''/repo''" "safeRoot blob_only_world = ''/repo/.tig/content''"
    by (simp_all add: blob_only_world_def gated_world_fields)
  have cp: "contentPath blob_only_world hello_hash = hello_blob_path"
    by (simp add: contentPath_expand hello_hash_valid flds hello_blob_path_def)
  have chk: "cleanup_check blob_only_world (''file.txt'', hello_change)"
    using cleanup_path_neq len
    by (simp add: cleanup_check_def filepath_Join_def flds stored_world_fields hello_change_def)
  have "map_of (GatedChanges (snd (CleanupGatedChanges blob_only_world))) ''file.txt'' = None"
    using chk by (simp add: CleanupGatedChanges_def flds)
  moreover have "map_option fdata (fs blob_only_world (contentPath blob_only_world hello_hash)) = Some ''hello''"
    by (simp add: cp flds stored_world_fields)
  moreover have "fs blob_only_world ''/repo/file.txt'' = None"
    by (simp add: flds)
  moreover have "NewHash hello_change = hello_hash"
    by (simp add: hello_change_def)
  ultimately show ?thesis
    by (simp add: flds)
qed

text \<open>
  C9, as stated: the \<open>FileState\<close> record of a path is created or updated whenever the
  file is gated. It fails for \<open>file.txt\<close> in \<open>file_world\<close>: \<open>gateFile\<close> succeeds and the
  database has no \<open>file_state:file.txt\<close> record afterwards.
\<close>

theorem gateFile_writes_no_FileState:
  "fst (gateFile demo_sha ''file.txt'' file_world) = None \<and>
   map_of (db (snd (gateFile demo_sha ''file.txt'' file_world))) (fileStateKey ''file.txt'') = None"
  by (simp add: gateFile_hello stored_world_fields fileStateKey_def metaKey_def)

text \<open>
  C9, amended: gating a file, by \<open>LocalWorkspace.gateFile\<close> or by \<open>LocalTracker.Gate\<close>,
  leaves every persisted \<open>FileState\<close> record as it was (none is created, none is
  updated: \<open>storeFileState\<close> and \<open>updateFileState\<close> have no caller); and
  \<open>LocalTracker.Untrack(paths)\<close> deletes the \<open>FileState\<close> record of every listed path.
\<close>

theorem FileState_gate_untrack:
  "map_of (db (snd (gateFile sha p s))) (fileStateKey q) = map_of (db s) (fileStateKey q) \<and>
   map_of (db (snd (LocalTracker_Gate sha p s))) (fileStateKey q) = map_of (db s) (fileStateKey q) \<and>
   (q \<in> set ps \<longrightarrow> map_of (db (snd (Untrack ps s))) (fileStateKey q) = None)"
proof -
  have "fileStateKey q \<noteq> ''gated:'' @ p" by (simp add: fileStateKey_def)
  then show ?thesis
    by (simp add: gateFile_db_other LocalTracker_Gate_db_other Untrack_def
        saveTrackedFiles_file_state untrack_loop_db)
qed

theorem FileState_gate_untrack_witness:
  "''file.txt'' \<in> set [''file.txt''] \<and>
   map_of (db tracked_world) (fileStateKey ''file.txt'')
     = Some (FileStateVal \<lparr>FHash = hello_hash, FModTime = 1, FSize = 5\<rparr>) \<and>
   map_of (db (snd (gateFile demo_sha ''file.txt'' tracked_world))) (fileStateKey ''file.txt'')
     = Some (FileStateVal \<lparr>FHash = hello_hash, FModTime = 1, FSize = 5\<rparr>) \<and>
   map_of (db (snd (Untrack [''file.txt''] tracked_world))) (fileStateKey ''file.txt'') = None"
  using FileState_gate_untrack [of demo_sha "''file.txt''" tracked_world "''file.txt''" "[''file.txt'']"]
  by (simp add: tracked_world_def)

section \<open>Claims about the content store\<close>

text \<open>
  C3, as stated: once the blob of a stored hash is corrupted on disk, with the metadata
  untouched, \<open>Get\<close> fails with the hash-mismatch error, and \<open>Verify\<close> always reads the
  blob and checks its hash. It fails right after \<open>Store\<close>: the bytes are still in the
  cache, so \<open>Get\<close> returns them without reading the blob, and \<open>Verify\<close>, which only
  re-hashes what \<open>Get\<close> returned, reports no error for the corrupted blob, although its
  description is that it checks content integrity.
\<close>

theorem Get_serves_cache_over_corrupted_blob:
  "map_option fdata (fs corrupted_world (contentPath corrupted_world hello_hash)) = Some ''hellp'' \<and>
   hashContent demo_sha ''hellp'' \<noteq> hello_hash \<and>
   db corrupted_world = db stored_world \<and>
   fst (Get demo_sha hello_hash corrupted_world) = Inr ''hello'' \<and>
   fst (Verify demo_sha hello_hash corrupted_world) = None"
proof -
  have g: "fst (Get demo_sha hello_hash corrupted_world) = Inr ''hello''"
    by (rule Get_cache_hit) (simp_all add: hello_hash_valid corrupted_fields)
  have "fst (Verify demo_sha hello_hash corrupted_world) = None"
    unfolding Verify_of_Get g by (simp add: hello_hash_def)
  with g show ?thesis
    by (simp add: corrupted_path corrupted_fields hellp_neq_hello)
qed

text \<open>
  C3, amended: take any state that the store reaches from an empty one through calls of
  \<open>Store\<close>, \<open>Get\<close> and \<open>Delete\<close> and through arbitrary damage to the files on disk, and
  a stored hash whose blob no longer hashes to its key. Then \<open>Get\<close> never returns the
  bytes of the blob. When the hash is not in the cache, \<open>Get\<close> fails with the
  hash-mismatch error, and so does \<open>Verify\<close>. When the hash is in the cache, \<open>Get\<close>
  returns the cached bytes, and these hash to the key. Nothing is stated about \<open>Verify\<close>
  when the hash is in the cache.
\<close>

theorem Get_corrupted_blob:
  assumes "db s0 = []" and "cache s0 = []"
    and "s = run_events sha evs s0"
    and "isValidHash h" and "meta_at s h \<noteq> None"
    and "fs s (contentPath s h) = Some f" and "hashContent sha (fdata f) \<noteq> h"
  shows "fst (Get sha h s) \<noteq> Inr (fdata f) \<and>
         (map_of (cache s) h = None \<longrightarrow>
            fst (Get sha h s) = Inl ErrHashMismatch \<and>
            fst (Verify sha h s) = Some ErrHashMismatch) \<and>
         (\<forall>v. map_of (cache s) h = Some v \<longrightarrow>
            fst (Get sha h s) = Inr v \<and> hashContent sha v = h)"
proof -
  from inv_empty [OF assms(1,2)] have "cache_ok sha s \<and> plain_metas s"
    unfolding assms(3) by (rule inv_run_events)
  then have c: "cache_ok sha s" and p: "plain_metas s" by simp_all
  from p assms(5) obtain m where m: "meta_at s h = Some (MetaVal m)" "\<not> Compressed m"
    by (auto simp: plain_metas_def)
  show ?thesis
  proof (cases "map_of (cache s) h")
    case None
    with assms(4,6,7) m have "Get sha h s = (Inl ErrHashMismatch, s)"
      by (intro Get_cache_miss_mismatch)
    with None show ?thesis by (simp add: Verify_of_Get)
  next
    case (Some v)
    with assms(4) have g: "fst (Get sha h s) = Inr v" by (intro Get_cache_hit)
    from c Some have "hashContent sha v = h" by (simp add: cache_ok_def)
    with g Some assms(7) show ?thesis by auto
  qed
qed

theorem Get_corrupted_blob_witness:
  "db small_cache_world = [] \<and> cache small_cache_world = [] \<and>
   isValidHash hello_hash \<and>
   meta_at evicted_corrupted_world hello_hash \<noteq> None \<and>
   fs evicted_corrupted_world (contentPath evicted_corrupted_world hello_hash)
     = Some \<lparr>fdata = ''hellp'', fmode = 420, fmodTime = 2\<rparr> \<and>
   hashContent demo_sha ''hellp'' \<noteq> hello_hash \<and>
   map_of (cache evicted_corrupted_world) hello_hash = None \<and>
   fst (Get demo_sha hello_hash evicted_corrupted_world) \<noteq> Inr ''hellp'' \<and>
   fst (Get demo_sha hello_hash evicted_corrupted_world) = Inl ErrHashMismatch \<and>
   fst (Verify demo_sha hello_hash evicted_corrupted_world) = Some ErrHashMismatch"
proof -
  have h: "db small_cache_world = []" "cache small_cache_world = []"
    by (simp_all add: small_cache_fields)
  note e = evicted_corrupted_world_def
  have k: "isValidHash hello_hash"
    "meta_at evicted_corrupted_world hello_hash \<noteq> None"
    "fs evicted_corrupted_world (contentPath evicted_corrupted_world hello_hash)
       = Some \<lparr>fdata = ''hellp'', fmode = 420, fmodTime = 2\<rparr>"
    "hashContent demo_sha (fdata \<lparr>fdata = ''hellp'', fmode = 420, fmodTime = 2\<rparr>) \<noteq> hello_hash"
    by (simp_all add: hello_hash_valid evicted_corrupted_fields hellp_neq_hello)
  from Get_corrupted_blob [OF h e k] h k evicted_corrupted_fields(2) show ?thesis
    by (simp add: hellp_neq_hello)
qed

text \<open>
  C10, as stated: from an empty store, after any sequence of \<open>Store\<close>, \<open>Get\<close> and
  \<open>Delete\<close>, every persisted metadata record has a reference count of at least 1. The
  count is a \<open>uint32\<close> and \<open>incrementRefCount\<close> adds 1 without a check: after \<open>2^32\<close>
  calls of \<open>Store\<close> with the same bytes the persisted record has reference count 0.
\<close>

theorem refcount_wraps_to_zero:
  "refCountOf hello_hash (run_ops demo_sha (replicate (2 ^ 32) (OpStore ''hello'')) empty_world) = Some 0"
proof -
  have "has_refs (hashContent demo_sha ''hello'') (of_nat (2 ^ 32))
          (store_n demo_sha ''hello'' (2 ^ 32) empty_world)"
    by (rule store_n_fresh) (simp_all add: empty_world_fresh)
  then have "refCountOf hello_hash (store_n demo_sha ''hello'' (2 ^ 32) empty_world) = Some (of_nat (2 ^ 32))"
    unfolding hello_hash_def by (rule has_refs_refCountOf)
  then show ?thesis
    by (simp add: run_ops_replicate_store)
qed

text \<open>
  C10, amended: from an empty store, after any sequence of \<open>Store\<close>, \<open>Get\<close> and \<open>Delete\<close>
  with fewer than \<open>2^32\<close> calls of \<open>Store\<close>, every persisted metadata record has a
  reference count of at least 1; and a \<open>Delete\<close> of a hash whose count is 1 removes the
  metadata record, the blob file and the cache entry.
\<close>

theorem refcount_positive_below_overflow:
  assumes "db s0 = []" and "count_stores ops < 2 ^ 32"
  shows "(\<forall>k m. map_of (db (run_ops sha ops s0)) k = Some (MetaVal m) \<longrightarrow> 1 \<le> unat (RefCount m)) \<and>
         (\<forall>h m. isValidHash h \<and> meta_at (run_ops sha ops s0) h = Some (MetaVal m) \<and> RefCount m = 1 \<longrightarrow>
            meta_at (snd (Delete h (run_ops sha ops s0))) h = None \<and>
            fs (snd (Delete h (run_ops sha ops s0))) (contentPath (run_ops sha ops s0) h) = None \<and>
            map_of (cache (snd (Delete h (run_ops sha ops s0)))) h = None)"
proof -
  from assms(1) have "refs_ok 0 s0" by (simp add: refs_ok_def)
  from refs_ok_run_ops [OF this, of ops sha] assms(2)
  have "refs_ok (count_stores ops) (run_ops sha ops s0)" by simp
  then show ?thesis
    using Delete_last_effect by (auto simp: refs_ok_def)
qed

theorem refcount_positive_below_overflow_witness:
  "db empty_world = [] \<and> count_stores [OpStore ''hello''] < 2 ^ 32 \<and>
   has_refs hello_hash 1 (run_ops demo_sha [OpStore ''hello''] empty_world) \<and>
   (1::nat) \<le> unat (1 :: 32 word)"
  using refcount_positive_below_overflow [of empty_world "[OpStore ''hello'']" demo_sha]
    Store_fresh(2) [of empty_world demo_sha "''hello''"]
  by (simp add: empty_world_fresh count_stores_def hello_hash_def)

text \<open>
  C2, as stated: after \<open>n\<close> calls of \<open>Store(b)\<close>, \<open>Exists(hash)\<close> becomes false only after
  the last of \<open>n\<close> calls of \<open>Delete(hash)\<close>, for every \<open>n\<close>. The count is a \<open>uint32\<close>:
  after \<open>2^32 + 1\<close> calls of \<open>Store\<close> it has wrapped around to 1, and the first \<open>Delete\<close>
  removes blob and metadata, so \<open>Exists\<close> is false with \<open>2^32\<close> deletions still to come.
\<close>

theorem store_overflow_loses_content:
  "Exists hello_hash (delete_n hello_hash 1 (store_n demo_sha ''hello'' (2 ^ 32 + 1) empty_world))
     = Inr False"
proof -
  have "has_refs (hashContent demo_sha ''hello'') (of_nat (2 ^ 32 + 1))
          (store_n demo_sha ''hello'' (2 ^ 32 + 1) empty_world)"
    by (rule store_n_fresh) (simp_all add: empty_world_fresh)
  moreover have "(of_nat (2 ^ 32 + 1) :: 32 word) = of_nat (2 ^ 32) + 1"
    by (simp only: of_nat_add of_nat_1)
  moreover have "(of_nat (2 ^ 32) :: 32 word) = 0"
    by simp
  ultimately have "has_refs hello_hash 1 (store_n demo_sha ''hello'' (2 ^ 32 + 1) empty_world)"
    by (simp only: hello_hash_def add_0)
  from has_refs_Delete_last [OF hello_hash_valid(1) this]
  show ?thesis
    by (simp add: Exists_absent hello_hash_valid(1))
qed

text \<open>
  C2, amended: let \<open>b\<close> be bytes whose hash is not stored yet and whose blob can be
  written. Two calls of \<open>Store(b)\<close> return the same hash, leave the reference count 2 and
  change the file system at the blob path only, which then holds \<open>b\<close>. For \<open>0 < n < 2^32\<close>,
  after \<open>n\<close> calls of \<open>Store(b)\<close>, \<open>Exists(hash)\<close> is true after fewer than \<open>n\<close> calls
  of \<open>Delete(hash)\<close>, and after the \<open>n\<close>-th call it is false and the metadata record and
  the blob file are gone.
\<close>

theorem dedup_and_refcount_lifecycle:
  assumes "meta_at s (hashContent sha b) = None" and "map_of (cache s) (hashContent sha b) = None"
    and "contentPath s (hashContent sha b) \<notin> writeFails s"
    and "0 < n" and "n < 2 ^ 32"
  shows "fst (Store sha b s) = Inr (hashContent sha b) \<and>
         fst (Store sha b (snd (Store sha b s))) = Inr (hashContent sha b) \<and>
         refCountOf (hashContent sha b) (store_n sha b 2 s) = Some 2 \<and>
         (\<forall>p. p \<noteq> contentPath s (hashContent sha b) \<longrightarrow> fs (store_n sha b 2 s) p = fs s p) \<and>
         map_option fdata (fs (store_n sha b 2 s) (contentPath s (hashContent sha b))) = Some b \<and>
         (\<forall>k<n. Exists (hashContent sha b) (delete_n (hashContent sha b) k (store_n sha b n s)) = Inr True) \<and>
         Exists (hashContent sha b) (delete_n (hashContent sha b) n (store_n sha b n s)) = Inr False \<and>
         meta_at (delete_n (hashContent sha b) n (store_n sha b n s)) (hashContent sha b) = None \<and>
         fs (delete_n (hashContent sha b) n (store_n sha b n s)) (contentPath s (hashContent sha b)) = None"
proof -
  let ?h = "hashContent sha b"
  have v: "isValidHash ?h" by (rule isValidHash_hashContent)
  note fresh = assms(1-3)
  have s1: "fst (Store sha b s) = Inr ?h" by (rule Store_fresh(1) [OF fresh])
  have r1: "has_refs ?h 1 (snd (Store sha b s))" by (rule Store_fresh(2) [OF fresh])
  have f1: "fs (snd (Store sha b s))
      = (fs s)(contentPath s ?h \<mapsto>
           \<lparr>fdata = b, fmode = (case fs s (contentPath s ?h) of None \<Rightarrow> 420 | Some f \<Rightarrow> fmode f),
            fmodTime = now s\<rparr>)"
    by (rule Store_fresh(3) [OF fresh])
  from has_refs_Store [OF r1]
  have s2: "fst (Store sha b (snd (Store sha b s))) = Inr ?h"
    and r2: "has_refs ?h (1 + 1) (snd (Store sha b (snd (Store sha b s))))"
    and f2: "fs (snd (Store sha b (snd (Store sha b s)))) = fs (snd (Store sha b s))"
    by simp_all
  have two: "store_n sha b 2 s = snd (Store sha b (snd (Store sha b s)))"
    by (simp add: numeral_2_eq_2)
  from r2 have c2: "refCountOf ?h (store_n sha b 2 s) = Some 2"
    unfolding two by (simp add: has_refs_refCountOf)
  have fsn: "fs (store_n sha b 2 s) = fs (snd (Store sha b s))"
    unfolding two by (rule f2)
  have rn: "has_refs ?h (of_nat n) (store_n sha b n s)"
    by (rule store_n_fresh [OF fresh assms(4)])
  have ex: "\<forall>k<n. Exists ?h (delete_n ?h k (store_n sha b n s)) = Inr True"
  proof (intro allI impI)
    fix k assume "k < n"
    from delete_n_partial [OF v rn this assms(5)]
    show "Exists ?h (delete_n ?h k (store_n sha b n s)) = Inr True"
      by (rule has_refs_Exists [OF v])
  qed
  from delete_n_all [OF v rn assms(4,5)]
  have gone: "meta_at (delete_n ?h n (store_n sha b n s)) ?h = None"
    "fs (delete_n ?h n (store_n sha b n s)) (contentPath s ?h) = None"
    "map_of (cache (delete_n ?h n (store_n sha b n s))) ?h = None"
    by (simp_all add: contentPath_cong [of "store_n sha b n s" s])
  have exf: "Exists ?h (delete_n ?h n (store_n sha b n s)) = Inr False"
    by (rule Exists_absent [OF v gone(1) gone(3)])
  show ?thesis
    using s1 s2 c2 ex exf gone(1,2)
    by (simp add: fsn f1)
qed

theorem dedup_and_refcount_lifecycle_witness:
  "meta_at file_world hello_hash = None \<and> map_of (cache file_world) hello_hash = None \<and>
   contentPath file_world hello_hash \<notin> writeFails file_world \<and> (0::nat) < 3 \<and> (3::nat) < 2 ^ 32 \<and>
   fst (Store demo_sha ''hello'' file_world) = Inr hello_hash \<and>
   fst (Store demo_sha ''hello'' (snd (Store demo_sha ''hello'' file_world))) = Inr hello_hash \<and>
   refCountOf hello_hash (store_n demo_sha ''hello'' 2 file_world) = Some 2 \<and>
   fs (store_n demo_sha ''hello'' 2 file_world) ''/repo/file.txt'' = Some hello_file \<and>
   map_option fdata (fs (store_n demo_sha ''hello'' 2 file_world) hello_blob_path) = Some ''hello'' \<and>
   Exists hello_hash (delete_n hello_hash 2 (store_n demo_sha ''hello'' 3 file_world)) = Inr True \<and>
   Exists hello_hash (delete_n hello_hash 3 (store_n demo_sha ''hello'' 3 file_world)) = Inr False \<and>
   meta_at (delete_n hello_hash 3 (store_n demo_sha ''hello'' 3 file_world)) hello_hash = None \<and>
   fs (delete_n hello_hash 3 (store_n demo_sha ''hello'' 3 file_world)) hello_blob_path = None"
proof -
  have h: "meta_at file_world (hashContent demo_sha ''hello'') = None"
    "map_of (cache file_world) (hashContent demo_sha ''hello'') = None"
    "contentPath file_world (hashContent demo_sha ''hello'') \<notin> writeFails file_world"
    "(0::nat) < 3" "(3::nat) < 2 ^ 32"
    by (simp_all add: meta_at_def file_world_fields)
  from dedup_and_refcount_lifecycle [OF h]
  show ?thesis
    using h hello_blob_path_neq
    by (simp add: hello_hash_def [symmetric] hello_path_eq file_world_fields)
qed

text \<open>
  C1. Round trip: for every byte sequence \<open>b\<close>, the empty one included, \<open>Store(b)\<close>
  returns the hash of \<open>b\<close> and \<open>Get\<close> of that hash returns exactly \<open>b\<close>. This holds in
  every state that is reached from an empty store by any sequence of \<open>Store\<close>, \<open>Get\<close> and
  \<open>Delete\<close>, with any digest function, provided that none of the contents stored before
  collides with \<open>b\<close> and that the blob file of \<open>b\<close> can be written.
\<close>

theorem store_get_roundtrip:
  assumes "db s0 = []" and "cache s0 = []"
    and "no_collision sha b (stored_contents ops)"
    and "contentPath s0 (hashContent sha b) \<notin> writeFails s0"
  shows "fst (Store sha b (run_ops sha ops s0)) = Inr (hashContent sha b) \<and>
         fst (Get sha (hashContent sha b) (snd (Store sha b (run_ops sha ops s0)))) = Inr b"
proof -
  from assms(1) have k0: "keys_ok s0" by (simp add: keys_ok_def meta_at_def)
  from assms(1,2) have s0: "slot_holds sha b s0" by (simp add: slot_holds_def meta_at_def)
  from inv_run_ops [OF k0 s0 assms(3)]
  have k: "keys_ok (run_ops sha ops s0)" and sl: "slot_holds sha b (run_ops sha ops s0)"
    by simp_all
  have "contentPath (run_ops sha ops s0) (hashContent sha b) = contentPath s0 (hashContent sha b)"
    by (rule contentPath_cong) simp
  with assms(4) have w: "contentPath (run_ops sha ops s0) (hashContent sha b)
      \<notin> writeFails (run_ops sha ops s0)" by simp
  from k sl w show ?thesis by (rule roundtrip_core)
qed

theorem store_get_roundtrip_witness:
  "db empty_world = [] \<and> cache empty_world = [] \<and>
   no_collision demo_sha [] (stored_contents [OpStore ''hello'', OpGet hello_hash]) \<and>
   contentPath empty_world (hashContent demo_sha []) \<notin> writeFails empty_world \<and>
   fst (Store demo_sha [] (run_ops demo_sha [OpStore ''hello'', OpGet hello_hash] empty_world))
     = Inr (hashContent demo_sha []) \<and>
   fst (Get demo_sha (hashContent demo_sha [])
         (snd (Store demo_sha [] (run_ops demo_sha [OpStore ''hello'', OpGet hello_hash] empty_world))))
     = Inr []"
proof -
  have ne: "hashContent demo_sha ''hello'' \<noteq> hashContent demo_sha []"
    using last_hello last_empty_hash by (auto simp: hello_hash_def)
  have h: "db empty_world = []" "cache empty_world = []"
    "no_collision demo_sha [] (stored_contents [OpStore ''hello'', OpGet hello_hash])"
    "contentPath empty_world (hashContent demo_sha []) \<notin> writeFails empty_world"
    using ne by (simp_all add: empty_world_fresh no_collision_def empty_world_def)
  from store_get_roundtrip [OF h] h show ?thesis by simp
qed




end
